theory Spec2Isabelle
  imports Complex_Main
begin

section \<open>Numbers\<close>

text \<open>
  The program computes with JavaScript numbers. A finite number carries a real value; the
  three non-finite values are kept apart, since the code tests \<open>Number.isFinite\<close> and
  starts its running minimum and maximum at \<open>Infinity\<close> and \<open>-Infinity\<close>. The
  viewport, the hit test and the rendering are computed in exact arithmetic; the rounding
  of IEEE doubles is added in the section on double precision, for the functions whose
  properties depend on it.
\<close>

datatype jsnum = Num real | NaN | PosInf | NegInf

fun isFinite :: "jsnum \<Rightarrow> bool" where
  "isFinite (Num v) = True"
| "isFinite NaN = False"
| "isFinite PosInf = False"
| "isFinite NegInf = False"

text \<open>\<open>Math.min\<close> and \<open>Math.max\<close> of two numbers: \<open>NaN\<close> is contagious.\<close>

fun Math_min :: "jsnum \<Rightarrow> jsnum \<Rightarrow> jsnum" where
  "Math_min NaN b = NaN"
| "Math_min a NaN = NaN"
| "Math_min NegInf b = NegInf"
| "Math_min a NegInf = NegInf"
| "Math_min PosInf b = b"
| "Math_min a PosInf = a"
| "Math_min (Num a) (Num b) = Num (min a b)"

fun Math_max :: "jsnum \<Rightarrow> jsnum \<Rightarrow> jsnum" where
  "Math_max NaN b = NaN"
| "Math_max a NaN = NaN"
| "Math_max PosInf b = PosInf"
| "Math_max a PosInf = PosInf"
| "Math_max NegInf b = b"
| "Math_max a NegInf = a"
| "Math_max (Num a) (Num b) = Num (max a b)"

text \<open>The comparison \<open>a < b\<close> of two numbers: false as soon as one is \<open>NaN\<close>.\<close>

fun js_less :: "jsnum \<Rightarrow> jsnum \<Rightarrow> bool" where
  "js_less NaN b = False"
| "js_less a NaN = False"
| "js_less (Num a) (Num b) = (a < b)"
| "js_less (Num a) PosInf = True"
| "js_less (Num a) NegInf = False"
| "js_less PosInf b = False"
| "js_less NegInf NegInf = False"
| "js_less NegInf b = True"

text \<open>\<open>const clamp = (v, a, b) => Math.max(a, Math.min(b, v))\<close>, on finite numbers.\<close>

definition clamp :: "real \<Rightarrow> real \<Rightarrow> real \<Rightarrow> real" where
  "clamp v a b = max a (min b v)"

section \<open>Data\<close>

text \<open>
  A normalized data point (\<open>main\<close>, lines 490--496). The field \<open>x\<close> is the time in
  milliseconds; it is finite in every element of \<open>data\<close>, because \<open>main\<close> filters on
  \<open>Number.isFinite(p.x)\<close>. The field \<open>t\<close> is the \<open>Date\<close> of the same instant and is not
  kept apart. A channel value is \<open>Number(...)\<close> of a cell and may be any number.
\<close>

record point =
  pt_x :: real
  temp_OUT :: jsnum
  moist_lv :: jsnum
  light :: jsnum

text \<open>The keys under which the program reads a channel of a point: \<open>p[key]\<close>.\<close>

datatype key = Key_temp_OUT | Key_moist_lv | Key_light

fun channel :: "key \<Rightarrow> point \<Rightarrow> jsnum" where
  "channel Key_temp_OUT p = temp_OUT p"
| "channel Key_moist_lv p = moist_lv p"
| "channel Key_light p = light p"

text \<open>The result of \<open>canvas.getBoundingClientRect()\<close>.\<close>

record rect =
  r_left :: real
  r_top :: real
  r_width :: real
  r_height :: real

text \<open>\<open>const padding = { left: 64, right: 64, top: 18, bottom: 46 }; const legendH = 24\<close>\<close>

definition padding_left :: real where "padding_left = 64"
definition padding_right :: real where "padding_right = 64"
definition padding_top :: real where "padding_top = 18"
definition padding_bottom :: real where "padding_bottom = 46"
definition legendH :: real where "legendH = 24"

text \<open>The plot rectangle with the view window, as \<open>draw\<close> and \<open>hitTest\<close> build it.\<close>

record plot =
  p_left :: real
  p_right :: real
  p_top :: real
  p_bottom :: real
  p_x0 :: real
  p_x1 :: real

section \<open>Session state\<close>

text \<open>
  The module's mutable variables (lines 99--105): \<open>view = {x0, x1}\<close>,
  \<open>panStart = {x, x0, x1}\<close> and \<open>xDomainAll = [minMs, maxMs]\<close> are flattened into fields.
  \<open>tooltip\<close> is the point the tooltip shows, \<open>None\<close> when it is hidden.
\<close>

record state =
  data :: "point list"
  rightKey :: key
  xDomainAll :: "real \<times> real"
  view_x0 :: real
  view_x1 :: real
  isPanning :: bool
  panStart_x :: real
  panStart_x0 :: real
  panStart_x1 :: real
  tooltip :: "point option"

definition init_state :: state where
  "init_state = \<lparr> data = [], rightKey = Key_moist_lv, xDomainAll = (0, 1),
     view_x0 = 0, view_x1 = 1, isPanning = False,
     panStart_x = 0, panStart_x0 = 0, panStart_x1 = 1, tooltip = None \<rparr>"

section \<open>Arithmetic that may leave the finite numbers\<close>

text \<open>
  Division is the one operation of the program that produces a non-finite number from
  finite operands (in exact arithmetic): \<open>a / 0\<close> is \<open>Infinity\<close>, \<open>-Infinity\<close> or
  \<open>NaN\<close>. The operations below follow the IEEE rules for the special values; signed
  zeros are not modelled (a zero divisor counts as \<open>+0\<close>).
\<close>

definition js_div :: "real \<Rightarrow> real \<Rightarrow> jsnum" where
  "js_div a b = (if b \<noteq> 0 then Num (a / b)
                 else if 0 < a then PosInf else if a < 0 then NegInf else NaN)"

fun js_sign :: "jsnum \<Rightarrow> real" where
  "js_sign (Num a) = sgn a"
| "js_sign PosInf = 1"
| "js_sign NegInf = - 1"
| "js_sign NaN = 0"

fun js_mul :: "jsnum \<Rightarrow> jsnum \<Rightarrow> jsnum" where
  "js_mul (Num a) (Num b) = Num (a * b)"
| "js_mul a b =
     (if a = NaN \<or> b = NaN then NaN
      else let s = js_sign a * js_sign b
           in if 0 < s then PosInf else if s < 0 then NegInf else NaN)"

fun js_add :: "jsnum \<Rightarrow> jsnum \<Rightarrow> jsnum" where
  "js_add (Num a) (Num b) = Num (a + b)"
| "js_add NaN b = NaN"
| "js_add a NaN = NaN"
| "js_add PosInf NegInf = NaN"
| "js_add NegInf PosInf = NaN"
| "js_add PosInf b = PosInf"
| "js_add a PosInf = PosInf"
| "js_add NegInf b = NegInf"
| "js_add a NegInf = NegInf"

fun js_neg :: "jsnum \<Rightarrow> jsnum" where
  "js_neg (Num a) = Num (- a)"
| "js_neg NaN = NaN"
| "js_neg PosInf = NegInf"
| "js_neg NegInf = PosInf"

definition js_sub :: "jsnum \<Rightarrow> jsnum \<Rightarrow> jsnum" where
  "js_sub a b = js_add a (js_neg b)"

fun Math_abs :: "jsnum \<Rightarrow> jsnum" where
  "Math_abs (Num a) = Num \<bar>a\<bar>"
| "Math_abs NaN = NaN"
| "Math_abs PosInf = PosInf"
| "Math_abs NegInf = PosInf"

section \<open>Hit-testing\<close>

text \<open>
  The binary search of \<open>hitTest\<close> (lines 340--345):
  \<^verbatim>\<open>while (lo < hi) { const mid = Math.floor((lo + hi) / 2);
                     if (data[mid].x < xVal) lo = mid + 1; else hi = mid; }\<close>
  It is entered with \<open>hi = data.length - 1\<close>, so every index it reads is in range.
\<close>

function bsearch :: "point list \<Rightarrow> jsnum \<Rightarrow> nat \<Rightarrow> nat \<Rightarrow> nat" where
  "bsearch d xVal lo hi =
     (if lo < hi then
        (let mid = (lo + hi) div 2
         in if js_less (Num (pt_x (d ! mid))) xVal then bsearch d xVal (mid + 1) hi
            else bsearch d xVal lo mid)
      else lo)"
  by pat_completeness auto
termination
  by (relation "measure (\<lambda>(d, xVal, lo, hi). hi - lo)") auto

declare bsearch.simps [simp del]

record hit =
  hit_p :: point
  hit_cssX :: real
  hit_cssY :: real
  hit_plot :: plot

text \<open>
  One round of the loop over the candidates (lines 349--352), on the pair
  \<open>(best, bestDx)\<close>.
\<close>

definition nearer :: "point list \<Rightarrow> jsnum \<Rightarrow> int \<Rightarrow> int \<times> jsnum \<Rightarrow> int \<times> jsnum" where
  "nearer d xVal i acc =
     (let dx = Math_abs (js_sub (Num (pt_x (d ! nat i))) xVal)
      in if js_less dx (snd acc) then (i, dx) else acc)"

text \<open>
  Lines 346--353: the candidates \<open>[lo, lo-1, lo+1]\<close> that are indices of \<open>data\<close>, and
  the index the loop ends with. With no candidate, \<open>best\<close> is \<open>undefined\<close> and so is
  \<open>data[best]\<close>.
\<close>

definition nearest_index :: "point list \<Rightarrow> jsnum \<Rightarrow> int option" where
  "nearest_index d xVal =
     (let lo = int (bsearch d xVal 0 (length d - 1));
          candidates = filter (\<lambda>i. 0 \<le> i \<and> i < int (length d)) [lo, lo - 1, lo + 1]
      in case candidates of
           [] \<Rightarrow> None
         | c # cs \<Rightarrow> Some (fst (fold (nearer d xVal) candidates (c, PosInf))))"

text \<open>
  \<open>hitTest(mouseX, mouseY)\<close> (lines 319--357); \<open>None\<close> is \<open>null\<close>. The target time is
  \<open>plot.x0 + (cssX - plot.left) / (plot.right - plot.left) * (plot.x1 - plot.x0)\<close>.
\<close>

definition hitTest :: "state \<Rightarrow> real \<Rightarrow> real \<Rightarrow> rect \<Rightarrow> hit option" where
  "hitTest s mouseX mouseY rect =
     (if data s = [] then None
      else
        let cssX = mouseX - r_left rect;
            cssY = mouseY - r_top rect;
            cssW = r_width rect;
            cssH = r_height rect;
            plot = \<lparr> p_left = padding_left, p_right = cssW - padding_right,
                     p_top = padding_top + legendH, p_bottom = cssH - padding_bottom,
                     p_x0 = view_x0 s, p_x1 = view_x1 s \<rparr>
        in if cssX < p_left plot \<or> cssX > p_right plot \<or> cssY < p_top plot \<or> cssY > p_bottom plot
           then None
           else
             let xVal = js_add (Num (p_x0 plot))
                          (js_mul (js_div (cssX - p_left plot) (p_right plot - p_left plot))
                                  (Num (p_x1 plot - p_x0 plot)))
             in case nearest_index (data s) xVal of
                  None \<Rightarrow> None
                | Some best \<Rightarrow>
                    Some \<lparr> hit_p = data s ! nat best, hit_cssX = cssX, hit_cssY = cssY,
                           hit_plot = plot \<rparr>)"

section \<open>Pan, zoom and the controls\<close>

text \<open>The \<open>mousedown\<close> handler (lines 411--416) and the \<open>mouseup\<close> handler (418--420).\<close>

definition mousedown :: "state \<Rightarrow> real \<Rightarrow> rect \<Rightarrow> state" where
  "mousedown s clientX rect =
     (let cssX = clientX - r_left rect
      in s\<lparr> isPanning := True, panStart_x := cssX,
             panStart_x0 := view_x0 s, panStart_x1 := view_x1 s \<rparr>)"

definition mouseup :: "state \<Rightarrow> state" where
  "mouseup s = s\<lparr> isPanning := False \<rparr>"

text \<open>
  The \<open>mousemove\<close> handler (lines 388--407). While panning it moves the window;
  otherwise it hit-tests and shows or hides the tooltip. The division by \<open>pxSpan\<close> is
  the division of the reals: the theorems below assume that \<open>pxSpan\<close> is not zero, where
  it is the program's division.
\<close>

definition mousemove :: "state \<Rightarrow> real \<Rightarrow> real \<Rightarrow> rect \<Rightarrow> state" where
  "mousemove s clientX clientY rect =
     (if isPanning s then
        (let cssX = clientX - r_left rect;
             dx = cssX - panStart_x s;
             span = panStart_x1 s - panStart_x0 s;
             pxSpan = r_width rect - padding_left - padding_right;
             msPerPx = span / pxSpan;
             shift = - dx * msPerPx;
             new0 = clamp (panStart_x0 s + shift) (fst (xDomainAll s)) (snd (xDomainAll s) - span)
         in s\<lparr> view_x0 := new0, view_x1 := new0 + span \<rparr>)
      else
        (case hitTest s clientX clientY rect of
           None \<Rightarrow> s\<lparr> tooltip := None \<rparr>
         | Some h \<Rightarrow> s\<lparr> tooltip := Some (hit_p h) \<rparr>))"

definition mouseleave :: "state \<Rightarrow> state" where
  "mouseleave s = s\<lparr> tooltip := None \<rparr>"

text \<open>
  The \<open>wheel\<close> handler, lines 432--445: the new window for a cursor at \<open>centerRatio\<close>
  of the plot width and a zoom factor.
\<close>

definition wheel_zoom :: "state \<Rightarrow> real \<Rightarrow> real \<Rightarrow> state" where
  "wheel_zoom s centerRatio zoomFactor =
     (let span = view_x1 s - view_x0 s;
          newSpan = clamp (span * zoomFactor) (5 * 60 * 1000) (snd (xDomainAll s) - fst (xDomainAll s));
          center = view_x0 s + span * centerRatio;
          new0 = center - newSpan * centerRatio;
          new1 = center + newSpan * (1 - centerRatio);
          (new0, new1) = (if new0 < fst (xDomainAll s)
                          then (fst (xDomainAll s), new1 + (fst (xDomainAll s) - new0))
                          else (new0, new1));
          (new0, new1) = (if new1 > snd (xDomainAll s)
                          then (new0 - (new1 - snd (xDomainAll s)), snd (xDomainAll s))
                          else (new0, new1));
          new0 = clamp new0 (fst (xDomainAll s)) (snd (xDomainAll s) - newSpan);
          new1 = new0 + newSpan
      in s\<lparr> view_x0 := new0, view_x1 := new1 \<rparr>)"

text \<open>
  The \<open>wheel\<close> handler (lines 422--447): events outside the plot's horizontal range
  are ignored; the factor is \<open>Math.exp(e.deltaY * 0.0012)\<close>. The division by the plot
  width is the division of the reals, as in \<open>mousemove\<close>.
\<close>

definition wheel :: "state \<Rightarrow> real \<Rightarrow> real \<Rightarrow> rect \<Rightarrow> state" where
  "wheel s clientX deltaY rect =
     (let cssX = clientX - r_left rect;
          plotLeft = padding_left;
          plotRight = r_width rect - padding_right
      in if cssX < plotLeft \<or> cssX > plotRight then s
         else
           let centerRatio = (cssX - plotLeft) / (plotRight - plotLeft);
               zoomFactor = exp (deltaY * 0.0012)
           in wheel_zoom s centerRatio zoomFactor)"

text \<open>The controls (lines 450--477). \<open>v\<close> is the value of the range selector.\<close>

definition rightAxisChange :: "state \<Rightarrow> key \<Rightarrow> state" where
  "rightAxisChange s k = s\<lparr> rightKey := k \<rparr>"

definition rangeChange :: "state \<Rightarrow> string \<Rightarrow> state" where
  "rangeChange s v =
     (if v = ''all'' then s\<lparr> view_x0 := fst (xDomainAll s), view_x1 := snd (xDomainAll s) \<rparr>
      else
        let hours = (if v = ''6h'' then 6 else 24);
            end = snd (xDomainAll s);
            span = hours * 60 * 60 * 1000
        in s\<lparr> view_x1 := end, view_x0 := max (fst (xDomainAll s)) (end - span) \<rparr>)"

definition resetClick :: "state \<Rightarrow> state" where
  "resetClick s = s\<lparr> rightKey := Key_moist_lv,
                      view_x0 := fst (xDomainAll s), view_x1 := snd (xDomainAll s) \<rparr>"

text \<open>The input events, and the handler each one runs.\<close>

datatype event =
    MouseMove real real rect
  | MouseLeave
  | MouseDown real rect
  | MouseUp
  | Wheel real real rect
  | RightAxisChange key
  | RangeChange string
  | ResetClick

fun handle :: "state \<Rightarrow> event \<Rightarrow> state" where
  "handle s (MouseMove clientX clientY rect) = mousemove s clientX clientY rect"
| "handle s MouseLeave = mouseleave s"
| "handle s (MouseDown clientX rect) = mousedown s clientX rect"
| "handle s MouseUp = mouseup s"
| "handle s (Wheel clientX deltaY rect) = wheel s clientX deltaY rect"
| "handle s (RightAxisChange k) = rightAxisChange s k"
| "handle s (RangeChange v) = rangeChange s v"
| "handle s ResetClick = resetClick s"

fun run :: "state \<Rightarrow> event list \<Rightarrow> state" where
  "run s [] = s"
| "run s (e # es) = run (handle s e) es"

section \<open>Load\<close>

datatype error = FetchFailed | NoDataRows

text \<open>
  The end of \<open>main\<close> (lines 501--504), given the normalized, sorted points: an empty
  sequence throws, otherwise the full extent and the view are set. The panning flag and
  the recorded drag start are left as they are.
\<close>

definition main_install :: "state \<Rightarrow> point list \<Rightarrow> error + state" where
  "main_install s pts =
     (if pts = [] then Inl NoDataRows
      else
        let dom = (pt_x (pts ! 0), pt_x (pts ! (length pts - 1)))
        in Inr (s\<lparr> data := pts, xDomainAll := dom, view_x0 := fst dom, view_x1 := snd dom \<rparr>))"

section \<open>The viewport invariant\<close>




text \<open>
  The handlers divide by the plot width \<open>rect.width - padding.left - padding.right\<close>. An
  event is well-formed when this width is not zero; \<open>draw\<close> lays the canvas out at least
  680 pixels wide.
\<close>

definition plot_has_width :: "rect \<Rightarrow> bool" where
  "plot_has_width rect \<longleftrightarrow> r_width rect - padding_left - padding_right \<noteq> 0"

fun event_ok :: "event \<Rightarrow> bool" where
  "event_ok (MouseMove clientX clientY rect) = plot_has_width rect"
| "event_ok (Wheel clientX deltaY rect) = plot_has_width rect"
| "event_ok e = True"


text \<open>A canvas and data points used in the examples.\<close>

definition ex_rect :: rect where
  "ex_rect = \<lparr> r_left = 0, r_top = 0, r_width = 1128, r_height = 520 \<rparr>"

definition ex_point :: "real \<Rightarrow> point" where
  "ex_point t = \<lparr> pt_x = t, temp_OUT = Num 20, moist_lv = Num 5, light = Num 7 \<rparr>"

text \<open>
  The part of the invariant that needs no minimum span: the full extent, the window and
  the window recorded at the last drag start are not empty.
\<close>

definition window_nonempty :: "state \<Rightarrow> bool" where
  "window_nonempty s \<longleftrightarrow>
     fst (xDomainAll s) < snd (xDomainAll s) \<and> view_x0 s < view_x1 s
     \<and> panStart_x0 s < panStart_x1 s"

section \<open>Hit-testing on a sorted sequence\<close>

text \<open>
  The index \<open>hitTest\<close> ends with on a time-sorted sequence, for a target time \<open>t\<close>: the
  insertion position \<open>r\<close> found by the binary search, or \<open>r - 1\<close> when that point is
  strictly nearer.
\<close>

definition pick :: "point list \<Rightarrow> real \<Rightarrow> nat" where
  "pick d t =
     (let r = bsearch d (Num t) 0 (length d - 1)
      in if 1 \<le> r \<and> \<bar>pt_x (d ! (r - 1)) - t\<bar> < \<bar>pt_x (d ! r) - t\<bar> then r - 1 else r)"

text \<open>Points with a time and a temperature, and a sequence with a duplicate timestamp.\<close>

definition ex_sample :: "real \<Rightarrow> real \<Rightarrow> point" where
  "ex_sample t v = \<lparr> pt_x = t, temp_OUT = Num v, moist_lv = Num 5, light = Num 7 \<rparr>"

definition ex_dups :: "point list" where
  "ex_dups = [ex_sample 0 1, ex_sample 20 2, ex_sample 20 3, ex_sample 1000 4]"

definition ex_five :: "point list" where
  "ex_five = [ex_sample 0 1, ex_sample 10 2, ex_sample 20 3, ex_sample 30 4, ex_sample 40 5]"





section \<open>Rendering\<close>

text \<open>
  The loop of \<open>domainForKey\<close> (lines 137--144) over \<open>data\<close>, on the pair \<open>(min, max)\<close>:
  points outside \<open>[x0, x1]\<close> and non-finite values are skipped.
\<close>

fun domain_loop :: "key \<Rightarrow> real \<times> real \<Rightarrow> point list \<Rightarrow> jsnum \<times> jsnum \<Rightarrow> jsnum \<times> jsnum" where
  "domain_loop k domainX [] acc = acc"
| "domain_loop k domainX (p # ps) acc =
     (if pt_x p < fst domainX \<or> pt_x p > snd domainX then domain_loop k domainX ps acc
      else
        let v = channel k p
        in if \<not> isFinite v then domain_loop k domainX ps acc
           else domain_loop k domainX ps (Math_min (fst acc) v, Math_max (snd acc) v))"

text \<open>
  \<open>domainForKey(key, domainX)\<close> (lines 135--149), reading the points \<open>d\<close>. The first
  case is the one where both \<open>min\<close> and \<open>max\<close> are finite; every other one returns
  \<open>[0, 1]\<close>. The arithmetic is exact here; \<open>domainForKey_f64\<close> in the section on
  double precision rounds it.
\<close>

definition domainForKey :: "point list \<Rightarrow> key \<Rightarrow> real \<times> real \<Rightarrow> real \<times> real" where
  "domainForKey d k domainX =
     (case domain_loop k domainX d (PosInf, NegInf) of
        (Num mn, Num mx) \<Rightarrow>
          if mn = mx then (mn - 1, mx + 1)
          else let pad = (mx - mn) * 0.06 in (mn - pad, mx + pad)
      | _ \<Rightarrow> (0, 1))"

text \<open>
  \<open>xToPx(x, plot)\<close> is \<open>left + (x - x0) / (x1 - x0) * (right - left)\<close> and
  \<open>yToPx(y, yDomain, top, bottom)\<close> is \<open>bottom - (y - y0) / (y1 - y0) * (bottom - top)\<close>
  (lines 151--159). With a zero divisor the result is not a finite number.
\<close>

definition xToPx :: "real \<Rightarrow> plot \<Rightarrow> jsnum" where
  "xToPx x plot =
     js_add (Num (p_left plot))
       (js_mul (js_div (x - p_x0 plot) (p_x1 plot - p_x0 plot)) (Num (p_right plot - p_left plot)))"

definition yToPx :: "real \<Rightarrow> real \<times> real \<Rightarrow> real \<Rightarrow> real \<Rightarrow> jsnum" where
  "yToPx y yDomain top' bottom =
     js_sub (Num bottom)
       (js_mul (js_div (y - fst yDomain) (snd yDomain - fst yDomain)) (Num (bottom - top')))"

text \<open>The path commands a series loop issues between \<open>beginPath\<close> and \<open>stroke\<close>.\<close>

datatype cmd = MoveTo jsnum jsnum | LineTo jsnum jsnum

text \<open>
  One series loop of \<open>drawSeries\<close> (lines 233--241 and 248--256), with the flag
  \<open>started\<close>: a point outside the window or with a non-finite value is skipped by
  \<open>continue\<close>; the first point drawn is moved to, every later one is joined by a line.
\<close>

fun series_loop :: "plot \<Rightarrow> key \<Rightarrow> real \<times> real \<Rightarrow> point list \<Rightarrow> bool \<Rightarrow> cmd list" where
  "series_loop plot k yDomain [] started = []"
| "series_loop plot k yDomain (p # ps) started =
     (if pt_x p < p_x0 plot \<or> pt_x p > p_x1 plot then series_loop plot k yDomain ps started
      else
        case channel k p of
          Num v \<Rightarrow>
            (let x = xToPx (pt_x p) plot;
                 y = yToPx v yDomain (p_top plot) (p_bottom plot)
             in (if \<not> started then MoveTo x y else LineTo x y)
                # series_loop plot k yDomain ps True)
        | _ \<Rightarrow> series_loop plot k yDomain ps started)"

text \<open>
  \<open>drawSeries(plot, keyLeft, keyRight, yLeftDomain, yRightDomain)\<close> (lines 224--257):
  the path of the left series and the path of the right series.
\<close>

definition drawSeries ::
  "point list \<Rightarrow> plot \<Rightarrow> key \<Rightarrow> key \<Rightarrow> real \<times> real \<Rightarrow> real \<times> real \<Rightarrow> cmd list \<times> cmd list" where
  "drawSeries d plot keyLeft keyRight yLeftDomain yRightDomain =
     (series_loop plot keyLeft yLeftDomain d False,
      series_loop plot keyRight yRightDomain d False)"

text \<open>
  \<open>draw()\<close> (lines 274--316), as far as the plot, the value domains and the two series
  go: nothing is drawn without data; the canvas is as wide as its container, at least 680
  pixels, and 520 pixels high.
\<close>

record drawing =
  dr_plot :: plot
  dr_yLeftDomain :: "real \<times> real"
  dr_yRightDomain :: "real \<times> real"
  dr_series :: "cmd list \<times> cmd list"

definition draw :: "state \<Rightarrow> real \<Rightarrow> drawing option" where
  "draw s containerWidth =
     (if data s = [] then None
      else
        let cssW = max 680 (of_int \<lfloor>containerWidth\<rfloor>);
            cssH = 520;
            plot = \<lparr> p_left = padding_left, p_right = cssW - padding_right,
                     p_top = padding_top + legendH, p_bottom = cssH - padding_bottom,
                     p_x0 = view_x0 s, p_x1 = view_x1 s \<rparr>;
            yL = domainForKey (data s) Key_temp_OUT (p_x0 plot, p_x1 plot);
            yR = domainForKey (data s) (rightKey s) (p_x0 plot, p_x1 plot)
        in Some \<lparr> dr_plot = plot, dr_yLeftDomain = yL, dr_yRightDomain = yR,
                  dr_series = drawSeries (data s) plot Key_temp_OUT (rightKey s) yL yR \<rparr>)"



definition visible :: "real \<Rightarrow> real \<Rightarrow> point \<Rightarrow> bool" where
  "visible a b p \<longleftrightarrow> a \<le> pt_x p \<and> pt_x p \<le> b"



text \<open>The values of a channel that \<open>domainForKey\<close> takes into account.\<close>

definition visible_values :: "key \<Rightarrow> real \<times> real \<Rightarrow> point list \<Rightarrow> real list" where
  "visible_values k domainX d =
     List.map_filter (\<lambda>p. case channel k p of Num v \<Rightarrow> Some v | _ \<Rightarrow> None)
       (filter (visible (fst domainX) (snd domainX)) d)"






section \<open>Double precision\<close>

text \<open>
  A JavaScript number is an IEEE 754 double, and every arithmetic operation rounds its
  exact result to the nearest double. Two functions of the program have properties that
  depend on this rounding: \<open>domainForKey\<close>, whose \<open>min - 1\<close> and \<open>max + 1\<close> can round back
  to the same number, and \<open>niceTicks\<close>, whose loop adds \<open>step\<close> to a tick that may be too
  large to change. They are transcribed here and in the next section with every
  operation rounded.

  \<open>round_even y\<close> is the integer nearest to \<open>y\<close>, the even one of the two when \<open>y\<close> lies
  halfway.
\<close>

definition round_even :: "real \<Rightarrow> int" where
  "round_even y =
     (let f = \<lfloor>y\<rfloor>; r = y - of_int f
      in if r < 1 / 2 then f else if 1 / 2 < r then f + 1 else if even f then f else f + 1)"

text \<open>
  The doubles around \<open>x\<close> are the multiples of \<open>2 ^ expo x\<close>: a significand of 53 bits
  below the leading power of two of \<open>x\<close>, and the fixed spacing \<open>2 ^ -1074\<close> of the
  subnormal numbers below \<open>2 ^ -1022\<close>.
\<close>

definition expo :: "real \<Rightarrow> int" where
  "expo x = max (\<lfloor>log 2 \<bar>x\<bar>\<rfloor> - 52) (- 1074)"

definition rnd :: "real \<Rightarrow> real" where
  "rnd x = of_int (round_even (x / 2 powr of_int (expo x))) * 2 powr of_int (expo x)"

text \<open>
  \<open>fl x\<close> is the number an operation with exact result \<open>x\<close> returns: the nearest double,
  or an infinity when the rounded result reaches \<open>2 ^ 1024\<close>. The sign of a zero is not
  modelled.
\<close>

definition huge :: real where
  "huge = 2 ^ 1024"

definition fl :: "real \<Rightarrow> jsnum" where
  "fl x = (if x = 0 then Num 0
           else if huge \<le> rnd x then PosInf
           else if rnd x \<le> - huge then NegInf
           else Num (rnd x))"

text \<open>
  The finite doubles: a significand below \<open>2 ^ 53\<close> in magnitude times a power of two
  between \<open>2 ^ -1074\<close> and \<open>2 ^ 971\<close>. Every number the program holds is a double,
  \<open>NaN\<close> or an infinity.
\<close>

definition is_double :: "real \<Rightarrow> bool" where
  "is_double x \<longleftrightarrow>
     (\<exists>m e. x = of_int m * 2 powr of_int e \<and> \<bar>m\<bar> < 2 ^ 53 \<and> - 1074 \<le> e \<and> e \<le> 971)"

fun js_double :: "jsnum \<Rightarrow> bool" where
  "js_double (Num x) = is_double x"
| "js_double NaN = True"
| "js_double PosInf = True"
| "js_double NegInf = True"

text \<open>The operators \<open>+\<close>, \<open>-\<close>, \<open>*\<close> and \<open>/\<close> on doubles: the exact result, rounded.\<close>

fun round64 :: "jsnum \<Rightarrow> jsnum" where
  "round64 (Num x) = fl x"
| "round64 NaN = NaN"
| "round64 PosInf = PosInf"
| "round64 NegInf = NegInf"

definition add64 :: "jsnum \<Rightarrow> jsnum \<Rightarrow> jsnum" where
  "add64 a b = round64 (js_add a b)"

definition sub64 :: "jsnum \<Rightarrow> jsnum \<Rightarrow> jsnum" where
  "sub64 a b = round64 (js_sub a b)"

definition mul64 :: "jsnum \<Rightarrow> jsnum \<Rightarrow> jsnum" where
  "mul64 a b = round64 (js_mul a b)"

fun div64 :: "jsnum \<Rightarrow> jsnum \<Rightarrow> jsnum" where
  "div64 (Num a) (Num b) = round64 (js_div a b)"
| "div64 NaN b = NaN"
| "div64 a NaN = NaN"
| "div64 (Num a) PosInf = Num 0"
| "div64 (Num a) NegInf = Num 0"
| "div64 PosInf (Num b) = (if 0 \<le> b then PosInf else NegInf)"
| "div64 NegInf (Num b) = (if 0 \<le> b then NegInf else PosInf)"
| "div64 PosInf PosInf = NaN"
| "div64 PosInf NegInf = NaN"
| "div64 NegInf PosInf = NaN"
| "div64 NegInf NegInf = NaN"

text \<open>The comparison \<open>a <= b\<close>: false as soon as one is \<open>NaN\<close>.\<close>

definition js_le :: "jsnum \<Rightarrow> jsnum \<Rightarrow> bool" where
  "js_le a b \<longleftrightarrow> a \<noteq> NaN \<and> b \<noteq> NaN \<and> \<not> js_less b a"

fun Math_floor :: "jsnum \<Rightarrow> jsnum" where
  "Math_floor (Num x) = Num (of_int \<lfloor>x\<rfloor>)"
| "Math_floor NaN = NaN"
| "Math_floor PosInf = PosInf"
| "Math_floor NegInf = NegInf"

fun Math_ceil :: "jsnum \<Rightarrow> jsnum" where
  "Math_ceil (Num x) = Num (of_int \<lceil>x\<rceil>)"
| "Math_ceil NaN = NaN"
| "Math_ceil PosInf = PosInf"
| "Math_ceil NegInf = NegInf"

text \<open>The literal \<open>0.06\<close> of the program text is the double nearest to \<open>0.06\<close>.\<close>

definition lit_006 :: jsnum where
  "lit_006 = fl 0.06"

text \<open>
  \<open>domainForKey(key, domainX)\<close> (lines 135--149) in double precision. The loop only
  compares, so it is \<open>domain_loop\<close> as before; the returns on lines 146--148 round:
  \<^verbatim>\<open>if (min === max) return [min - 1, max + 1];
     const pad = (max - min) * 0.06;
     return [min - pad, max + pad];\<close>
\<close>

definition domainForKey_f64 :: "point list \<Rightarrow> key \<Rightarrow> real \<times> real \<Rightarrow> jsnum \<times> jsnum" where
  "domainForKey_f64 d k domainX =
     (case domain_loop k domainX d (PosInf, NegInf) of
        (Num mn, Num mx) \<Rightarrow>
          if mn = mx then (sub64 (Num mn) (Num 1), add64 (Num mx) (Num 1))
          else let pad = mul64 (sub64 (Num mx) (Num mn)) lit_006
               in (sub64 (Num mn) pad, add64 (Num mx) pad)
      | _ \<Rightarrow> (Num 0, Num 1))"

text \<open>
  The values of a channel are all one number, and that number is \<open>2 ^ 53\<close> or more in
  magnitude.
\<close>

definition flat_large :: "real list \<Rightarrow> bool" where
  "flat_large vs \<longleftrightarrow> vs \<noteq> [] \<and> list_all (\<lambda>v. v = hd vs) vs \<and> 2 ^ 53 \<le> \<bar>hd vs\<bar>"

text \<open>Two points an hour apart whose temperature is \<open>1e16\<close>.\<close>

definition ex_flat :: "point list" where
  "ex_flat = [ \<lparr> pt_x = 0, temp_OUT = Num 10000000000000000, moist_lv = Num 5, light = Num 7 \<rparr>,
               \<lparr> pt_x = 3600000, temp_OUT = Num 10000000000000000, moist_lv = Num 5, light = Num 7 \<rparr> ]"

section \<open>Tick steps\<close>

text \<open>
  \<open>Math.log10\<close> and \<open>Math.pow\<close> are functions of the engine, whose precision the
  language leaves to the implementation: they are parameters.
\<close>

record math_lib =
  Math_log10 :: "jsnum \<Rightarrow> jsnum"
  Math_pow :: "jsnum \<Rightarrow> jsnum \<Rightarrow> jsnum"

text \<open>
  The selection loop of \<open>niceTicks\<close> (lines 78--79):
  \<^verbatim>\<open>let step = candidates[0];
     for (const c of candidates)
       if (Math.abs(c - rawStep) < Math.abs(step - rawStep)) step = c;\<close>
\<close>

fun closest :: "jsnum \<Rightarrow> jsnum list \<Rightarrow> jsnum \<Rightarrow> jsnum" where
  "closest rawStep [] step = step"
| "closest rawStep (c # cs) step =
     closest rawStep cs
       (if js_less (Math_abs (sub64 c rawStep)) (Math_abs (sub64 step rawStep)) then c else step)"

text \<open>
  The loop that fills \<open>ticks\<close> (line 85):
  \<^verbatim>\<open>for (let v = start; v <= end + step * 0.5; v += step) ticks.push(v);\<close>
  with \<open>bound\<close> for \<open>end + step * 0.5\<close>. \<open>None\<close> stands for a loop that does not end.
\<close>

partial_function (option) ticks_loop :: "jsnum \<Rightarrow> jsnum \<Rightarrow> jsnum \<Rightarrow> jsnum list \<Rightarrow> jsnum list option" where
  "ticks_loop v bound step ticks =
     (if js_le v bound then ticks_loop (add64 v step) bound step (ticks @ [v]) else Some ticks)"

text \<open>
  \<open>niceTicks(min, max, targetCount)\<close> (lines 69--87) in double precision: the pair of
  \<open>step\<close> and \<open>ticks\<close>. A non-finite bound or \<open>min === max\<close> gives step 1 and the single
  tick \<open>min\<close>.
\<close>

definition niceTicks :: "math_lib \<Rightarrow> jsnum \<Rightarrow> jsnum \<Rightarrow> jsnum \<Rightarrow> (jsnum \<times> jsnum list) option" where
  "niceTicks M mn mx targetCount =
     (if \<not> isFinite mn \<or> \<not> isFinite mx \<or> mn = mx then Some (Num 1, [mn])
      else
        let span = Math_abs (sub64 mx mn);
            rawStep = div64 span targetCount;
            pow10 = Math_pow M (Num 10) (Math_floor (Math_log10 M rawStep));
            candidates = map (\<lambda>x. mul64 (Num x) pow10) [1, 2, 5, 10];
            step = closest rawStep candidates (candidates ! 0);
            start = mul64 (Math_floor (div64 mn step)) step;
            end = mul64 (Math_ceil (div64 mx step)) step
        in map_option (\<lambda>ticks. (step, ticks))
             (ticks_loop start (add64 end (mul64 step (Num (1 / 2)))) step []))"

text \<open>
  The values of \<open>Math.log10\<close> and \<open>Math.pow\<close> at the arguments of two examples:
  \<open>Math.log10(16.666666666666668)\<close> is \<open>1.2218487496163564\<close>,
  \<open>Math.log10(0.3333333333333333)\<close> is \<open>-0.4771212547196625\<close>, \<open>Math.pow(10, 1)\<close> is \<open>10\<close>
  and \<open>Math.pow(10, -1)\<close> is \<open>0.1\<close>, each double written as a fraction.
\<close>

definition ex_log10 :: "jsnum \<Rightarrow> jsnum" where
  "ex_log10 x =
     (if x = Num (4691249611844267 / 281474976710656) then Num (5502717573475329 / 4503599627370496)
      else if x = Num (6004799503160661 / 18014398509481984)
        then Num (- (4297526209932031 / 9007199254740992))
      else NaN)"

definition ex_pow :: "jsnum \<Rightarrow> jsnum \<Rightarrow> jsnum" where
  "ex_pow x y =
     (if x = Num 10 \<and> y = Num 1 then Num 10
      else if x = Num 10 \<and> y = Num (- 1) then Num (3602879701896397 / 36028797018963968)
      else NaN)"

definition ex_math :: math_lib where
  "ex_math = \<lparr> Math_log10 = ex_log10, Math_pow = ex_pow \<rparr>"

section \<open>Ingestion\<close>

text \<open>
  The built-in functions of the platform that the ingestion calls and whose result the
  program does not determine: \<open>Number(s)\<close> on a string, \<open>String(v)\<close> on a finite number,
  and the time value of \<open>new Date(iso)\<close> in the local time zone (\<open>NaN\<close> for an invalid
  date). The model takes them as parameters.
\<close>

record platform =
  js_Number :: "string \<Rightarrow> jsnum"
  js_String :: "real \<Rightarrow> string"
  js_Date :: "string \<Rightarrow> jsnum"

text \<open>
  Strings are sequences of 8-bit code units. \<open>trim()\<close> removes white space and line
  terminators at both ends: tab, line feed, vertical tab, form feed, carriage return,
  space and no-break space.
\<close>

definition is_space :: "char \<Rightarrow> bool" where
  "is_space c \<longleftrightarrow>
     c \<in> set [CHR 0x09, CHR 0x0A, CHR 0x0B, CHR 0x0C, CHR 0x0D, CHR 0x20, CHR 0xA0]"

definition trim :: "string \<Rightarrow> string" where
  "trim s = rev (dropWhile is_space (rev (dropWhile is_space s)))"

text \<open>\<open>s.split(c)\<close> for a one-character separator: never the empty list.\<close>

fun split_on :: "char \<Rightarrow> string \<Rightarrow> string list" where
  "split_on c [] = [[]]"
| "split_on c (x # xs) =
     (if x = c then [] # split_on c xs
      else case split_on c xs of
             w # ws \<Rightarrow> (x # w) # ws
           | [] \<Rightarrow> [[x]])"

text \<open>
  A cell of a parsed row is a finite number, or the raw text when \<open>Number(raw)\<close> is not
  finite (line 44). A row is the object built from the header keys; a later column with
  the same header overwrites an earlier one.
\<close>

datatype cell = CNum real | CStr string

type_synonym row = "string \<rightharpoonup> cell"

definition cell_of :: "platform \<Rightarrow> string \<Rightarrow> cell" where
  "cell_of P raw = (case js_Number P raw of Num v \<Rightarrow> CNum v | _ \<Rightarrow> CStr raw)"

text \<open>The inner loop of \<open>parseCSV\<close> (lines 39--45), for columns as many as the headers.\<close>

definition row_of :: "platform \<Rightarrow> string list \<Rightarrow> string list \<Rightarrow> row" where
  "row_of P headers cols =
     fold (\<lambda>j obj. obj(headers ! j \<mapsto> cell_of P (trim (cols ! j)))) [0..<length headers] Map.empty"

text \<open>The outer loop of \<open>parseCSV\<close> (lines 36--47) over the lines after the header.\<close>

fun parse_lines :: "platform \<Rightarrow> string list \<Rightarrow> string list \<Rightarrow> row list" where
  "parse_lines P headers [] = []"
| "parse_lines P headers (l # ls) =
     (let cols = split_on CHR '','' l
      in if length cols \<noteq> length headers then parse_lines P headers ls
         else row_of P headers cols # parse_lines P headers ls)"

text \<open>\<open>parseCSV(text)\<close> (lines 30--49).\<close>

definition parseCSV :: "platform \<Rightarrow> string \<Rightarrow> row list" where
  "parseCSV P text =
     (let lines = split_on CHR 0x0A (trim (filter (\<lambda>c. c \<noteq> CHR 0x0D) text))
      in if length lines < 2 then []
         else
           let headers = map trim (split_on CHR '','' (lines ! 0))
           in parse_lines P headers (tl lines))"

text \<open>
  \<open>String(v)\<close> of a field of a row, which may be missing, and \<open>pad2\<close> (line 28):
  \<open>String(n).padStart(2, "0")\<close>.
\<close>

definition to_string :: "platform \<Rightarrow> cell option \<Rightarrow> string" where
  "to_string P v =
     (case v of None \<Rightarrow> ''undefined'' | Some (CNum n) \<Rightarrow> js_String P n | Some (CStr s) \<Rightarrow> s)"

definition pad2 :: "platform \<Rightarrow> cell option \<Rightarrow> string" where
  "pad2 P n = (let s = to_string P n in replicate (2 - length s) CHR ''0'' @ s)"

text \<open>\<open>toDate(row)\<close> (lines 51--57): the time value of the date it returns.\<close>

definition toDate :: "platform \<Rightarrow> row \<Rightarrow> jsnum" where
  "toDate P r =
     (let y = r ''year''; m = r ''month''; d = r ''date'';
          hh = r ''hour''; mm = r ''min''; ss = r ''sec'';
          iso = to_string P y @ ''-'' @ pad2 P m @ ''-'' @ pad2 P d @ ''T''
                  @ pad2 P hh @ '':'' @ pad2 P mm @ '':'' @ pad2 P ss
      in js_Date P iso)"

text \<open>\<open>Number(v)\<close> of a field of a row.\<close>

definition to_number :: "platform \<Rightarrow> cell option \<Rightarrow> jsnum" where
  "to_number P v =
     (case v of None \<Rightarrow> NaN | Some (CNum n) \<Rightarrow> Num n | Some (CStr s) \<Rightarrow> js_Number P s)"

text \<open>
  The normalization in \<open>main\<close> (lines 487--499): \<open>map\<close>, then \<open>filter\<close> on a finite
  \<open>x\<close>, here in one pass, then \<open>sort\<close> by \<open>x\<close>, which is stable.
\<close>

definition point_of :: "platform \<Rightarrow> row \<Rightarrow> point option" where
  "point_of P r =
     (case toDate P r of
        Num ms \<Rightarrow> Some \<lparr> pt_x = ms, temp_OUT = to_number P (r ''temp_OUT''),
                         moist_lv = to_number P (r ''moist_lv''),
                         light = to_number P (r ''light'') \<rparr>
      | _ \<Rightarrow> None)"

definition normalize :: "platform \<Rightarrow> row list \<Rightarrow> point list" where
  "normalize P raw = sort_key pt_x (List.map_filter (point_of P) raw)"

text \<open>
  \<open>main()\<close> (lines 480--508), given the response of \<open>fetch\<close>: whether it is \<open>ok\<close>, and
  its text.
\<close>

record response =
  res_ok :: bool
  res_text :: string

definition main :: "platform \<Rightarrow> state \<Rightarrow> response \<Rightarrow> error + state" where
  "main P s res =
     (if \<not> res_ok res then Inl FetchFailed
      else main_install s (normalize P (parseCSV P (res_text res))))"

text \<open>
  The ingestion as the specification words it, line by line: the header names, the data
  lines, the lines whose column count matches the header, and among them the lines whose
  composed timestamp is finite.
\<close>

definition header_of :: "string \<Rightarrow> string list" where
  "header_of text =
     map trim (split_on CHR '','' (hd (split_on CHR 0x0A (trim (filter (\<lambda>c. c \<noteq> CHR 0x0D) text)))))"

definition data_lines :: "string \<Rightarrow> string list" where
  "data_lines text = tl (split_on CHR 0x0A (trim (filter (\<lambda>c. c \<noteq> CHR 0x0D) text)))"

definition columns_match :: "string list \<Rightarrow> string \<Rightarrow> bool" where
  "columns_match headers l \<longleftrightarrow> length (split_on CHR '','' l) = length headers"

definition timestamp_finite :: "platform \<Rightarrow> string list \<Rightarrow> string \<Rightarrow> bool" where
  "timestamp_finite P headers l \<longleftrightarrow> isFinite (toDate P (row_of P headers (split_on CHR '','' l)))"

text \<open>
  A line is accepted when its column count matches the header and its composed timestamp
  is finite; the point it then contributes.
\<close>

definition accepted :: "platform \<Rightarrow> string list \<Rightarrow> string \<Rightarrow> bool" where
  "accepted P headers l \<longleftrightarrow> columns_match headers l \<and> timestamp_finite P headers l"

definition line_point :: "platform \<Rightarrow> string list \<Rightarrow> string \<Rightarrow> point" where
  "line_point P headers l = the (point_of P (row_of P headers (split_on CHR '','' l)))"

text \<open>Every field of a line parses as a finite number.\<close>

definition all_fields_parse :: "platform \<Rightarrow> string \<Rightarrow> bool" where
  "all_fields_parse P l \<longleftrightarrow> list_all (\<lambda>c. isFinite (js_Number P (trim c))) (split_on CHR '','' l)"

text \<open>
  A platform for the examples, given by tables: it answers as JavaScript does (in the time
  zone UTC) on the strings and numbers of the example file below, and with \<open>NaN\<close> or the
  empty string elsewhere.
\<close>

definition ex_Number :: "string \<Rightarrow> jsnum" where
  "ex_Number s =
     (if s = ''2026'' then Num 2026 else if s = ''2'' then Num 2 else if s = ''8'' then Num 8
      else if s = ''12'' then Num 12 else if s = ''0'' then Num 0 else if s = ''30'' then Num 30
      else if s = ''5'' then Num 5 else if s = ''7'' then Num 7 else NaN)"

definition ex_String :: "real \<Rightarrow> string" where
  "ex_String v =
     (if v = 2026 then ''2026'' else if v = 2 then ''2'' else if v = 8 then ''8''
      else if v = 12 then ''12'' else if v = 0 then ''0'' else if v = 30 then ''30''
      else if v = 5 then ''5'' else if v = 7 then ''7'' else [])"

definition ex_Date :: "string \<Rightarrow> jsnum" where
  "ex_Date s = (if s = ''2026-02-08T12:00:30'' then Num 1770552030000 else NaN)"

definition ex_platform :: platform where
  "ex_platform = \<lparr> js_Number = ex_Number, js_String = ex_String, js_Date = ex_Date \<rparr>"

text \<open>
  A file of a header and two lines: in the first the temperature is not a number, the
  second has too few columns.
\<close>

definition ex_csv :: string where
  "ex_csv = ''year,month,date,hour,min,sec,temp_OUT,moist_lv,light'' @ [CHR 0x0A]
          @ ''2026,2,8,12,0,30,abc,5,7'' @ [CHR 0x0A]
          @ ''2026,2,8,12'' @ [CHR 0x0A]"


section \<open>Properties of the viewport\<close>



lemma wheel_zoom_span:
  "view_x1 (wheel_zoom s r f) - view_x0 (wheel_zoom s r f)
     = clamp ((view_x1 s - view_x0 s) * f) (5 * 60 * 1000) (snd (xDomainAll s) - fst (xDomainAll s))"
  by (simp add: wheel_zoom_def Let_def split_def)



lemma wheel_zoom_frame:
  "xDomainAll (wheel_zoom s r f) = xDomainAll s" "isPanning (wheel_zoom s r f) = isPanning s"
  "panStart_x0 (wheel_zoom s r f) = panStart_x0 s" "panStart_x1 (wheel_zoom s r f) = panStart_x1 s"
  by (simp_all add: wheel_zoom_def Let_def split_def)








lemma mousemove_pan_view:
  assumes "isPanning s"
  shows "view_x0 (mousemove s clientX clientY rect) =
           clamp (panStart_x0 s
                   - (clientX - r_left rect - panStart_x s) * (panStart_x1 s - panStart_x0 s)
                       / (r_width rect - padding_left - padding_right))
             (fst (xDomainAll s)) (snd (xDomainAll s) - (panStart_x1 s - panStart_x0 s))"
    and "view_x1 (mousemove s clientX clientY rect) =
           view_x0 (mousemove s clientX clientY rect) + (panStart_x1 s - panStart_x0 s)"
  using assms by (simp_all add: mousemove_def Let_def)

lemma mousemove_frame:
  "xDomainAll (mousemove s clientX clientY rect) = xDomainAll s"
  "isPanning (mousemove s clientX clientY rect) = isPanning s"
  "panStart_x0 (mousemove s clientX clientY rect) = panStart_x0 s"
  "panStart_x1 (mousemove s clientX clientY rect) = panStart_x1 s"
  by (simp_all add: mousemove_def Let_def split: option.splits)

lemma mousemove_hover_view:
  assumes "\<not> isPanning s"
  shows "view_x0 (mousemove s clientX clientY rect) = view_x0 s"
    and "view_x1 (mousemove s clientX clientY rect) = view_x1 s"
  using assms by (simp_all add: mousemove_def split: option.splits)






lemma main_install_Inr:
  assumes "main_install s pts = Inr s0"
  shows "pts \<noteq> []"
    and "s0 = s\<lparr> data := pts, xDomainAll := (pt_x (pts ! 0), pt_x (pts ! (length pts - 1))),
                   view_x0 := pt_x (pts ! 0), view_x1 := pt_x (pts ! (length pts - 1)) \<rparr>"
  using assms by (auto simp: main_install_def Let_def split: if_splits)














section \<open>The viewport operations on examples\<close>













section \<open>Properties of the rendering\<close>

lemma foldl_min_le: "foldl min (a::real) vs \<le> a"
proof (induction vs arbitrary: a)
  case Nil then show ?case by simp
next
  case (Cons w ws)
  have "foldl min (min a w) ws \<le> min a w" by (rule Cons.IH)
  then show ?case by simp
qed

lemma foldl_max_ge: "(a::real) \<le> foldl max a vs"
proof (induction vs arbitrary: a)
  case Nil then show ?case by simp
next
  case (Cons w ws)
  have "max a w \<le> foldl max (max a w) ws" by (rule Cons.IH)
  then show ?case by simp
qed


lemma foldl_min_mem: "v \<in> set vs \<Longrightarrow> foldl min (a::real) vs \<le> v"
proof (induction vs arbitrary: a)
  case Nil then show ?case by simp
next
  case (Cons w ws)
  show ?case
  proof (cases "v = w")
    case True
    have "foldl min (min a w) ws \<le> min a w" by (rule foldl_min_le)
    with True show ?thesis by simp
  next
    case False
    with Cons show ?thesis by simp
  qed
qed

lemma foldl_max_mem: "v \<in> set vs \<Longrightarrow> v \<le> foldl max (a::real) vs"
proof (induction vs arbitrary: a)
  case Nil then show ?case by simp
next
  case (Cons w ws)
  show ?case
  proof (cases "v = w")
    case True
    have "max a w \<le> foldl max (max a w) ws" by (rule foldl_max_ge)
    with True show ?thesis by simp
  next
    case False
    with Cons show ?thesis by simp
  qed
qed

lemma foldl_min_le_max: "foldl min (a::real) vs \<le> foldl max a vs"
  using foldl_min_le[of a vs] foldl_max_ge[of a vs] by simp

lemma visible_values_Cons:
  "visible_values k domainX (p # ps) =
     (if pt_x p < fst domainX \<or> pt_x p > snd domainX then visible_values k domainX ps
      else case channel k p of Num v \<Rightarrow> v # visible_values k domainX ps
                            | _ \<Rightarrow> visible_values k domainX ps)"
  by (auto simp: visible_values_def visible_def split: jsnum.splits)

lemma visible_values_Nil: "visible_values k domainX [] = []"
  by (simp add: visible_values_def)

lemma domain_loop_Num:
  "domain_loop k domainX d (Num a, Num b) =
     (Num (foldl min a (visible_values k domainX d)), Num (foldl max b (visible_values k domainX d)))"
  by (induction d arbitrary: a b)
     (auto simp: visible_values_Cons visible_values_Nil Let_def split: jsnum.splits)

lemma domain_loop_start:
  "domain_loop k domainX d (PosInf, NegInf) =
     (case visible_values k domainX d of
        [] \<Rightarrow> (PosInf, NegInf)
      | v # vs \<Rightarrow> (Num (foldl min v vs), Num (foldl max v vs)))"
  by (induction d)
     (auto simp: visible_values_Cons visible_values_Nil Let_def domain_loop_Num split: jsnum.splits)

















section \<open>Properties of rounding\<close>

text \<open>
  Rounding to the nearest integer is monotone and odd, so is \<open>rnd\<close>; a double is its own
  rounding, and the rounding of a real below the overflow threshold is a double. Two
  doubles are at least \<open>2 ^ -1074\<close> apart, and a double \<open>v\<close> has the double
  \<open>v + 2 ^ expo v\<close> above it: adding a step of at least \<open>2 ^ -52\<close> times \<open>v\<close> moves it.
\<close>

lemma round_even_of_int [simp]: "round_even (of_int k) = k"
  by (simp add: round_even_def)

lemma round_even_0 [simp]: "round_even 0 = 0"
  using round_even_of_int[of 0] by simp

lemma round_even_cases:
  "round_even y = \<lfloor>y\<rfloor> \<or> round_even y = \<lfloor>y\<rfloor> + 1"
  by (simp add: round_even_def Let_def)

lemma round_even_mono: "x \<le> y \<Longrightarrow> round_even x \<le> round_even y"
proof -
  assume xy: "x \<le> y"
  then have f: "\<lfloor>x\<rfloor> \<le> \<lfloor>y\<rfloor>" by (rule floor_mono)
  show ?thesis
  proof (cases "\<lfloor>x\<rfloor> = \<lfloor>y\<rfloor>")
    case True
    with xy show ?thesis
      by (auto simp: round_even_def Let_def)
  next
    case False
    with f have "\<lfloor>x\<rfloor> + 1 \<le> \<lfloor>y\<rfloor>" by simp
    moreover have "round_even x \<le> \<lfloor>x\<rfloor> + 1" using round_even_cases[of x] by auto
    moreover have "\<lfloor>y\<rfloor> \<le> round_even y" using round_even_cases[of y] by auto
    ultimately show ?thesis by linarith
  qed
qed

lemma round_even_minus: "round_even (- y) = - round_even y"
proof (cases "y \<in> \<int>")
  case True
  then obtain k where "y = of_int k" by (auto elim: Ints_cases)
  then show ?thesis by (simp flip: of_int_minus)
next
  case False
  then have "y \<noteq> of_int \<lfloor>y\<rfloor>" by (metis Ints_of_int)
  then have fl: "\<lfloor>- y\<rfloor> = - \<lfloor>y\<rfloor> - 1"
    by (simp add: floor_minus ceiling_altdef)
  show ?thesis
    unfolding round_even_def Let_def fl by (auto simp: algebra_simps)
qed

lemma p2_pos: "0 < (2::real) powr e" by simp

lemma expo_ge: "- 1074 \<le> expo x"
  by (simp add: expo_def)

lemma expo_minus [simp]: "expo (- x) = expo x"
  by (simp add: expo_def)

lemma floor_log2_bounds:
  assumes "x \<noteq> 0"
  shows "2 powr of_int \<lfloor>log 2 \<bar>x\<bar>\<rfloor> \<le> \<bar>x\<bar>" "\<bar>x\<bar> < 2 powr of_int (\<lfloor>log 2 \<bar>x\<bar>\<rfloor> + 1)"
proof -
  have "0 < \<bar>x\<bar>" using assms by simp
  then have "\<lfloor>log 2 \<bar>x\<bar>\<rfloor> = \<lfloor>log 2 \<bar>x\<bar>\<rfloor> \<longleftrightarrow>
     2 powr of_int \<lfloor>log 2 \<bar>x\<bar>\<rfloor> \<le> \<bar>x\<bar> \<and> \<bar>x\<bar> < 2 powr of_int (\<lfloor>log 2 \<bar>x\<bar>\<rfloor> + 1)"
    by (intro floor_log_eq_powr_iff) simp_all
  then show "2 powr of_int \<lfloor>log 2 \<bar>x\<bar>\<rfloor> \<le> \<bar>x\<bar>" "\<bar>x\<bar> < 2 powr of_int (\<lfloor>log 2 \<bar>x\<bar>\<rfloor> + 1)"
    by simp_all
qed

lemma floor_log2_eq:
  assumes "2 powr of_int k \<le> \<bar>x\<bar>" "\<bar>x\<bar> < 2 powr of_int (k + 1)"
  shows "\<lfloor>log 2 \<bar>x\<bar>\<rfloor> = k"
proof -
  have "0 < \<bar>x\<bar>" using assms(1) by (rule less_le_trans[OF p2_pos])
  then have "\<lfloor>log 2 \<bar>x\<bar>\<rfloor> = k \<longleftrightarrow> 2 powr of_int k \<le> \<bar>x\<bar> \<and> \<bar>x\<bar> < 2 powr of_int (k + 1)"
    by (intro floor_log_eq_powr_iff) simp_all
  with assms show ?thesis by simp
qed

lemma expo_eq:
  assumes "2 powr of_int k \<le> \<bar>x\<bar>" "\<bar>x\<bar> < 2 powr of_int (k + 1)"
  shows "expo x = max (k - 52) (- 1074)"
  by (simp add: expo_def floor_log2_eq[OF assms])

lemma expo_upper:
  assumes "x \<noteq> 0"
  shows "\<bar>x\<bar> < 2 powr of_int (expo x + 53)"
proof -
  have "\<bar>x\<bar> < 2 powr of_int (\<lfloor>log 2 \<bar>x\<bar>\<rfloor> + 1)" by (rule floor_log2_bounds[OF assms])
  also have "\<dots> \<le> 2 powr of_int (expo x + 53)"
    by (intro powr_mono) (simp_all add: expo_def)
  finally show ?thesis .
qed

lemma expo_lower:
  assumes "x \<noteq> 0" "- 1074 < expo x"
  shows "2 powr of_int (expo x + 52) \<le> \<bar>x\<bar>"
proof -
  from assms(2) have "expo x + 52 = \<lfloor>log 2 \<bar>x\<bar>\<rfloor>" by (simp add: expo_def max_def split: if_splits)
  then show ?thesis using floor_log2_bounds(1)[OF assms(1)] by simp
qed

lemma expo_mono:
  assumes "x \<noteq> 0" "\<bar>x\<bar> \<le> \<bar>y\<bar>"
  shows "expo x \<le> expo y"
proof -
  have "log 2 \<bar>x\<bar> \<le> log 2 \<bar>y\<bar>" using assms by simp
  then have "\<lfloor>log 2 \<bar>x\<bar>\<rfloor> \<le> \<lfloor>log 2 \<bar>y\<bar>\<rfloor>" by (rule floor_mono)
  then show ?thesis by (simp add: expo_def)
qed

lemma rnd_0 [simp]: "rnd 0 = 0"
  by (simp add: rnd_def)

lemma rnd_minus: "rnd (- x) = - rnd x"
  by (simp add: rnd_def round_even_minus)

lemma p2_diff:
  assumes "E \<le> e"
  shows "(2::real) powr of_int e = of_int (2 ^ nat (e - E)) * 2 powr of_int E"
proof -
  have "(2::real) powr of_int e = 2 powr (of_int (e - E) + of_int E)" by simp
  also have "\<dots> = 2 powr of_int (e - E) * 2 powr of_int E" by (rule powr_add)
  also have "of_int (e - E) = real (nat (e - E))" using assms by simp
  also have "(2::real) powr real (nat (e - E)) = 2 ^ nat (e - E)" by (simp add: powr_realpow)
  finally show ?thesis by simp
qed

lemma rnd_multiple:
  assumes "x = of_int j * 2 powr of_int e" "expo x \<le> e"
  shows "rnd x = x"
proof -
  have "x = of_int (j * 2 ^ nat (e - expo x)) * 2 powr of_int (expo x)"
    by (subst assms(1), subst p2_diff[OF assms(2)]) simp
  then have "x / 2 powr of_int (expo x) = of_int (j * 2 ^ nat (e - expo x))"
    by (simp add: field_simps)
  then have "rnd x = of_int (j * 2 ^ nat (e - expo x)) * 2 powr of_int (expo x)"
    unfolding rnd_def by (simp only: round_even_of_int)
  with \<open>x = of_int (j * 2 ^ nat (e - expo x)) * 2 powr of_int (expo x)\<close> show ?thesis by simp
qed

lemma rnd_nonneg: "0 \<le> x \<Longrightarrow> 0 \<le> rnd x"
proof -
  assume "0 \<le> x"
  then have "round_even 0 \<le> round_even (x / 2 powr of_int (expo x))"
    by (intro round_even_mono) simp
  then show ?thesis by (simp add: rnd_def)
qed

lemma rnd_upper:
  assumes "0 < x"
  shows "rnd x \<le> 2 powr of_int (expo x + 53)"
proof -
  define E where "E = expo x"
  have "x < 2 powr of_int (E + 53)" using expo_upper[of x] assms by (simp add: E_def)
  also have "\<dots> = of_int (2 ^ 53) * 2 powr of_int E"
    using p2_diff[of E "E + 53"] by (simp add: nat_add_distrib)
  finally have "x / 2 powr of_int E \<le> of_int (2 ^ 53)" by (simp add: field_simps)
  then have "round_even (x / 2 powr of_int E) \<le> round_even (of_int (2 ^ 53))"
    by (rule round_even_mono)
  then have "round_even (x / 2 powr of_int E) \<le> 2 ^ 53" by (simp only: round_even_of_int)
  then have "real_of_int (round_even (x / 2 powr of_int E)) \<le> of_int (2 ^ 53)"
    by (simp only: of_int_le_iff)
  then have "rnd x \<le> of_int (2 ^ 53) * 2 powr of_int E"
    unfolding rnd_def E_def by (intro mult_right_mono) simp_all
  also have "\<dots> = 2 powr of_int (E + 53)"
    using p2_diff[of E "E + 53"] by (simp add: nat_add_distrib)
  finally show ?thesis by (simp add: E_def)
qed

lemma rnd_lower:
  assumes "0 < x" "- 1074 < expo x"
  shows "2 powr of_int (expo x + 52) \<le> rnd x"
proof -
  define E where "E = expo x"
  have "of_int (2 ^ 52) * 2 powr of_int E = (2::real) powr of_int (E + 52)"
    using p2_diff[of E "E + 52"] by (simp add: nat_add_distrib)
  also have "\<dots> \<le> x" using expo_lower[of x] assms by (simp add: E_def)
  finally have "of_int (2 ^ 52) \<le> x / 2 powr of_int E" by (simp add: field_simps)
  then have "round_even (of_int (2 ^ 52)) \<le> round_even (x / 2 powr of_int E)"
    by (rule round_even_mono)
  then have "2 ^ 52 \<le> round_even (x / 2 powr of_int E)" by (simp only: round_even_of_int)
  then have "of_int (2 ^ 52) \<le> real_of_int (round_even (x / 2 powr of_int E))"
    by (simp only: of_int_le_iff)
  then have "of_int (2 ^ 52) * 2 powr of_int E \<le> rnd x"
    unfolding rnd_def E_def by (intro mult_right_mono) simp_all
  also have "of_int (2 ^ 52) * 2 powr of_int E = (2::real) powr of_int (E + 52)"
    using p2_diff[of E "E + 52"] by (simp add: nat_add_distrib)
  finally show ?thesis by (simp add: E_def)
qed

lemma rnd_mono_pos:
  assumes "0 < x" "x \<le> y"
  shows "rnd x \<le> rnd y"
proof -
  have y: "0 < y" using assms by simp
  have le: "expo x \<le> expo y" using assms by (intro expo_mono) simp_all
  show ?thesis
  proof (cases "expo x = expo y")
    case True
    have "x / 2 powr of_int (expo y) \<le> y / 2 powr of_int (expo y)"
      using assms(2) by (simp add: divide_right_mono)
    then have "round_even (x / 2 powr of_int (expo y)) \<le> round_even (y / 2 powr of_int (expo y))"
      by (rule round_even_mono)
    then show ?thesis
      unfolding rnd_def True by (intro mult_right_mono) simp_all
  next
    case False
    with le have lt: "expo x + 1 \<le> expo y" by simp
    have "rnd x \<le> 2 powr of_int (expo x + 53)" by (rule rnd_upper[OF assms(1)])
    also have "\<dots> \<le> 2 powr of_int (expo y + 52)"
      using lt by (intro powr_mono) simp_all
    also have "\<dots> \<le> rnd y"
      using lt expo_ge[of x] by (intro rnd_lower[OF y]) simp
    finally show ?thesis .
  qed
qed

lemma rnd_mono: "x \<le> y \<Longrightarrow> rnd x \<le> rnd y"
proof -
  assume xy: "x \<le> y"
  consider "0 < x" | "x \<le> 0" "0 \<le> y" | "y < 0" by linarith
  then show ?thesis
  proof cases
    case 1
    then show ?thesis using xy by (rule rnd_mono_pos)
  next
    case 2
    have "0 \<le> rnd (- x)" using 2(1) by (intro rnd_nonneg) simp
    then have "rnd x \<le> 0" by (simp add: rnd_minus)
    also have "0 \<le> rnd y" using 2(2) by (rule rnd_nonneg)
    finally show ?thesis .
  next
    case 3
    then have "rnd (- y) \<le> rnd (- x)" using xy by (intro rnd_mono_pos) simp_all
    then show ?thesis by (simp add: rnd_minus)
  qed
qed

lemma is_doubleI:
  "x = of_int m * 2 powr of_int e \<Longrightarrow> \<bar>m\<bar> < 2 ^ 53 \<Longrightarrow> - 1074 \<le> e \<Longrightarrow> e \<le> 971 \<Longrightarrow> is_double x"
  unfolding is_double_def by blast

lemma is_double_0 [simp]: "is_double 0"
  by (rule is_doubleI[of _ 0 0]) simp_all

lemma is_double_minus [simp]: "is_double (- x) = is_double x"
proof -
  have "is_double (- y)" if "is_double y" for y
  proof -
    from that obtain m e where "y = of_int m * 2 powr of_int e" "\<bar>m\<bar> < 2 ^ 53" "- 1074 \<le> e" "e \<le> 971"
      unfolding is_double_def by blast
    then show ?thesis by (intro is_doubleI[of _ "- m" e]) simp_all
  qed
  from this[of x] this[of "- x"] show ?thesis by auto
qed

lemma p2_numeral: "(2::real) powr of_int (int n) = 2 ^ n"
  by (simp add: powr_realpow)

lemma p2_less: "(2::real) powr of_int a < 2 powr of_int b \<longleftrightarrow> a < b"
  by simp

lemma p2_le: "(2::real) powr of_int a \<le> 2 powr of_int b \<longleftrightarrow> a \<le> b"
  by simp

lemma huge_p2: "huge = 2 powr of_int 1024"
  unfolding huge_def using p2_numeral[of 1024] by simp

lemma huge_pos: "0 < huge"
  by (simp add: huge_p2)

lemma expo_le_of_repr:
  assumes "x = of_int m * 2 powr of_int e" "\<bar>m\<bar> < 2 ^ 53" "- 1074 \<le> e" "x \<noteq> 0"
  shows "expo x \<le> e"
proof -
  have "real_of_int \<bar>m\<bar> < of_int (2 ^ 53)" using assms(2) by (simp only: of_int_less_iff)
  then have "real_of_int \<bar>m\<bar> * 2 powr of_int e < of_int (2 ^ 53) * 2 powr of_int e"
    by (intro mult_strict_right_mono) simp_all
  also have "of_int (2 ^ 53) * 2 powr of_int e = (2::real) powr of_int (e + 53)"
    using p2_diff[of e "e + 53"] by (simp add: nat_add_distrib)
  also have "real_of_int \<bar>m\<bar> * 2 powr of_int e = \<bar>x\<bar>"
    by (simp add: assms(1) abs_mult)
  finally have "\<bar>x\<bar> < 2 powr of_int (e + 53)" .
  with floor_log2_bounds(1)[OF assms(4)]
  have "(2::real) powr of_int \<lfloor>log 2 \<bar>x\<bar>\<rfloor> < 2 powr of_int (e + 53)" by (rule le_less_trans)
  then have "\<lfloor>log 2 \<bar>x\<bar>\<rfloor> < e + 53" by simp
  with assms(3) show ?thesis by (simp add: expo_def)
qed

lemma is_double_rnd: "is_double x \<Longrightarrow> rnd x = x"
proof (cases "x = 0")
  case True
  then show ?thesis by simp
next
  case False
  assume "is_double x"
  then obtain m e where r: "x = of_int m * 2 powr of_int e" "\<bar>m\<bar> < 2 ^ 53" "- 1074 \<le> e" "e \<le> 971"
    unfolding is_double_def by blast
  from expo_le_of_repr[OF r(1,2,3) False] show ?thesis by (rule rnd_multiple[OF r(1)])
qed

lemma is_double_bound:
  assumes "is_double x"
  shows "\<bar>x\<bar> < huge"
proof -
  from assms obtain m e where r: "x = of_int m * 2 powr of_int e" "\<bar>m\<bar> < 2 ^ 53" "- 1074 \<le> e" "e \<le> 971"
    unfolding is_double_def by blast
  have "real_of_int \<bar>m\<bar> < of_int (2 ^ 53)" using r(2) by (simp only: of_int_less_iff)
  then have "real_of_int \<bar>m\<bar> * 2 powr of_int e < of_int (2 ^ 53) * 2 powr of_int e"
    by (intro mult_strict_right_mono) simp_all
  also have "\<dots> \<le> of_int (2 ^ 53) * 2 powr of_int 971"
    using r(4) by (intro mult_left_mono powr_mono) simp_all
  also have "\<dots> = 2 powr of_int (971 + 53)"
    using p2_diff[of 971 "971 + 53"] by (simp add: nat_add_distrib)
  also have "\<dots> = huge" by (simp add: huge_p2)
  finally show ?thesis by (simp add: r(1) abs_mult)
qed

lemma fl_alt:
  "fl x = (if huge \<le> rnd x then PosInf else if rnd x \<le> - huge then NegInf else Num (rnd x))"
  using huge_pos by (auto simp: fl_def)

lemma fl_double: "is_double x \<Longrightarrow> fl x = Num x"
  using is_double_bound[of x] by (auto simp: fl_alt is_double_rnd)

lemma rnd_abs_upper:
  assumes "x \<noteq> 0"
  shows "\<bar>rnd x\<bar> \<le> 2 powr of_int (expo x + 53)"
proof (cases "0 < x")
  case True
  with rnd_upper[OF True] rnd_nonneg[of x] show ?thesis by simp
next
  case False
  with assms have n: "0 < - x" by simp
  from rnd_upper[OF n] rnd_nonneg[of "- x"] n show ?thesis by (simp add: rnd_minus)
qed

lemma rnd_is_double_pos:
  assumes "0 < x" "rnd x < huge"
  shows "is_double (rnd x)"
proof -
  define E where "E = expo x"
  define n where "n = round_even (x / 2 powr of_int E)"
  have r: "rnd x = of_int n * 2 powr of_int E" by (simp add: rnd_def n_def E_def)
  have "round_even 0 \<le> n" unfolding n_def using assms(1) by (intro round_even_mono) simp
  then have n0: "0 \<le> n" by simp
  have "x < 2 powr of_int (E + 53)" using expo_upper[of x] assms(1) by (simp add: E_def)
  also have "\<dots> = of_int (2 ^ 53) * 2 powr of_int E"
    using p2_diff[of E "E + 53"] by (simp add: nat_add_distrib)
  finally have "x / 2 powr of_int E \<le> of_int (2 ^ 53)" by (simp add: field_simps)
  then have "n \<le> round_even (of_int (2 ^ 53))" unfolding n_def by (rule round_even_mono)
  then have n53: "n \<le> 2 ^ 53" by (simp only: round_even_of_int)
  have E: "- 1074 \<le> E" by (simp add: E_def expo_ge)
  show ?thesis
  proof (cases "n = 2 ^ 53")
    case True
    have eq: "rnd x = (2::real) powr of_int (E + 53)"
      unfolding r True using p2_diff[of E "E + 53"] by (simp add: nat_add_distrib)
    have "(2::real) powr of_int (E + 53) < 2 powr of_int 1024"
      using assms(2) unfolding eq huge_p2 .
    then have E': "E + 53 < 1024" by (simp only: p2_less)
    have "rnd x = of_int (2 ^ 52) * 2 powr of_int (E + 1)"
      unfolding eq using p2_diff[of "E + 1" "E + 53"] by (simp add: nat_add_distrib nat_diff_distrib)
    then show ?thesis
      using E E' by (intro is_doubleI[of _ "2 ^ 52" "E + 1"]) simp_all
  next
    case False
    with n53 have lt: "n < 2 ^ 53" by simp
    have "E \<le> 971"
    proof (rule ccontr)
      assume "\<not> E \<le> 971"
      then have big: "972 \<le> E" by simp
      then have "(2::real) powr of_int 1024 \<le> 2 powr of_int (E + 52)"
        by (simp only: p2_le)
      also have "\<dots> \<le> rnd x"
        using rnd_lower[OF assms(1)] big by (simp add: E_def)
      finally show False using assms(2) unfolding huge_p2 by linarith
    qed
    with r n0 lt E show ?thesis by (intro is_doubleI[of _ n E]) simp_all
  qed
qed

lemma rnd_is_double:
  assumes "\<bar>rnd x\<bar> < huge"
  shows "is_double (rnd x)"
proof -
  consider "0 < x" | "x = 0" | "0 < - x" by linarith
  then show ?thesis
  proof cases
    case 1
    with assms show ?thesis by (intro rnd_is_double_pos) simp_all
  next
    case 2
    then show ?thesis by simp
  next
    case 3
    have "is_double (rnd (- x))"
      using assms 3 by (intro rnd_is_double_pos) (simp_all add: rnd_minus)
    then show ?thesis by (simp add: rnd_minus)
  qed
qed

lemma fl_is_double: "fl x = Num y \<Longrightarrow> is_double y"
  using rnd_is_double[of x] by (auto simp: fl_alt split: if_splits)

lemma is_double_grid:
  assumes "is_double x"
  shows "\<exists>j. x = of_int j * 2 powr of_int (- 1074)"
proof -
  from assms obtain m e where r: "x = of_int m * 2 powr of_int e" "- 1074 \<le> e"
    unfolding is_double_def by blast
  have "x = of_int (m * 2 ^ nat (e - (- 1074))) * 2 powr of_int (- 1074)"
    by (subst r(1), subst p2_diff[OF r(2)]) simp
  then show ?thesis by blast
qed

lemma doubles_apart:
  assumes "is_double x" "is_double y" "x < y"
  shows "x + 2 powr of_int (- 1074) \<le> y"
proof -
  from is_double_grid[OF assms(1)] obtain i where i: "x = of_int i * 2 powr of_int (- 1074)" by blast
  from is_double_grid[OF assms(2)] obtain j where j: "y = of_int j * 2 powr of_int (- 1074)" by blast
  from assms(3) have "real_of_int i < of_int j" unfolding i j by simp
  then have "i + 1 \<le> j" by simp
  then have "real_of_int (i + 1) \<le> of_int j" by (simp only: of_int_le_iff)
  then have "real_of_int (i + 1) * 2 powr of_int (- 1074) \<le> of_int j * 2 powr of_int (- 1074)"
    by (intro mult_right_mono) simp_all
  then show ?thesis unfolding i j by (simp add: algebra_simps)
qed

lemma is_double_of_int:
  assumes "\<bar>k\<bar> \<le> 2 ^ 53"
  shows "is_double (of_int k)"
proof (cases "\<bar>k\<bar> = 2 ^ 53")
  case False
  with assms show ?thesis by (intro is_doubleI[of _ k 0]) simp_all
next
  case True
  then consider "k = 2 ^ 53" | "k = - (2 ^ 53)" by linarith
  then show ?thesis
  proof cases
    case 1
    then show ?thesis by (intro is_doubleI[of _ "2 ^ 52" 1]) simp_all
  next
    case 2
    then show ?thesis by (intro is_doubleI[of _ "- (2 ^ 52)" 1]) simp_all
  qed
qed

lemma is_double_p2:
  assumes "- 1074 \<le> e" "e \<le> 1023"
  shows "is_double (2 powr of_int e)"
proof (cases "e \<le> 971")
  case True
  with assms show ?thesis by (intro is_doubleI[of _ 1 e]) simp_all
next
  case False
  then have e: "971 \<le> e" by simp
  have "nat (e - 971) \<le> 52" using assms(2) by simp
  then have "(2::int) ^ nat (e - 971) \<le> 2 ^ 52" by (intro power_increasing) simp_all
  then have "\<bar>(2::int) ^ nat (e - 971)\<bar> < 2 ^ 53" by simp
  then show ?thesis
    using p2_diff[OF e] by (intro is_doubleI[of _ "2 ^ nat (e - 971)" 971]) simp_all
qed

lemma rnd_le_double: "x \<le> d \<Longrightarrow> is_double d \<Longrightarrow> rnd x \<le> d"
  using rnd_mono[of x d] by (simp add: is_double_rnd)

lemma rnd_ge_double: "d \<le> x \<Longrightarrow> is_double d \<Longrightarrow> d \<le> rnd x"
  using rnd_mono[of d x] by (simp add: is_double_rnd)

lemma fl_cases:
  "(fl x = Num (rnd x) \<and> \<bar>rnd x\<bar> < huge \<and> is_double (rnd x))
   \<or> (fl x = PosInf \<and> huge \<le> rnd x) \<or> (fl x = NegInf \<and> rnd x \<le> - huge)"
proof -
  consider "huge \<le> rnd x" | "rnd x \<le> - huge" | "\<bar>rnd x\<bar> < huge" by linarith
  then show ?thesis
  proof cases
    case 1
    then show ?thesis by (simp add: fl_alt)
  next
    case 2
    with huge_pos show ?thesis by (simp add: fl_alt)
  next
    case 3
    then show ?thesis by (auto simp: fl_alt rnd_is_double)
  qed
qed

lemma fl_not_NaN [simp]: "fl x \<noteq> NaN"
  by (simp add: fl_alt)

lemma fl_le_double:
  assumes "x \<le> d" "is_double d"
  shows "fl x = NegInf \<or> (\<exists>r. fl x = Num r \<and> r \<le> d \<and> is_double r)"
proof -
  have r: "rnd x \<le> d" using assms by (rule rnd_le_double)
  have "d < huge" using is_double_bound[OF assms(2)] by simp
  with r show ?thesis using fl_cases[of x] by auto
qed

lemma fl_ge_double:
  assumes "d \<le> x" "is_double d"
  shows "fl x = PosInf \<or> (\<exists>r. fl x = Num r \<and> d \<le> r \<and> is_double r)"
proof -
  have r: "d \<le> rnd x" using assms by (rule rnd_ge_double)
  have "- huge < d" using is_double_bound[OF assms(2)] by simp
  with r show ?thesis using fl_cases[of x] by auto
qed

lemma tiny_double: "is_double (2 powr of_int (- 1074))"
  by (rule is_double_p2) simp_all

lemma fl_pos:
  assumes "2 powr of_int (- 1074) \<le> x"
  shows "fl x = PosInf \<or> (\<exists>r. fl x = Num r \<and> 0 < r \<and> is_double r)"
  using fl_ge_double[OF assms tiny_double] less_le_trans[OF p2_pos] by blast

lemma fl_between:
  assumes "d1 \<le> x" "x \<le> d2" "is_double d1" "is_double d2"
  shows "\<exists>r. fl x = Num r \<and> d1 \<le> r \<and> r \<le> d2 \<and> is_double r"
  using fl_le_double[OF assms(2,4)] fl_ge_double[OF assms(1,3)] by auto

lemma sub64_Num: "sub64 (Num a) (Num b) = fl (a - b)"
  by (simp add: sub64_def js_sub_def)

lemma add64_Num: "add64 (Num a) (Num b) = fl (a + b)"
  by (simp add: add64_def)

lemma mul64_Num: "mul64 (Num a) (Num b) = fl (a * b)"
  by (simp add: mul64_def)

lemma js_le_Num [simp]: "js_le (Num a) (Num b) \<longleftrightarrow> a \<le> b"
  by (auto simp: js_le_def)

lemma repr_bound:
  assumes "\<bar>real_of_int j * 2 powr of_int e\<bar> < 2 powr of_int (e + 53)"
  shows "\<bar>j\<bar> < 2 ^ 53"
proof -
  have 1: "real_of_int \<bar>j\<bar> * 2 powr of_int e = \<bar>of_int j * 2 powr of_int e\<bar>"
    by (simp add: abs_mult)
  have 2: "(2::real) powr of_int (e + 53) = of_int (2 ^ 53) * 2 powr of_int e"
    using p2_diff[of e "e + 53"] by (simp add: nat_add_distrib)
  from assms have "real_of_int \<bar>j\<bar> * 2 powr of_int e < of_int (2 ^ 53) * 2 powr of_int e"
    unfolding 1 2 .
  then have "real_of_int \<bar>j\<bar> < of_int (2 ^ 53)" by simp
  then show ?thesis by (simp only: of_int_less_iff)
qed

lemma huge_971: "huge = 2 powr of_int (971 + 53)"
  by (simp add: huge_p2)

lemma is_double_scale:
  assumes "is_double x" "0 \<le> k" "\<bar>x\<bar> * 2 powr of_int k < huge"
  shows "is_double (x * 2 powr of_int k)"
proof -
  from assms(1) obtain m e where r: "x = of_int m * 2 powr of_int e" "\<bar>m\<bar> < 2 ^ 53" "- 1074 \<le> e" "e \<le> 971"
    unfolding is_double_def by blast
  have xk: "x * 2 powr of_int k = of_int m * 2 powr of_int (e + k)"
    by (simp add: r(1) powr_add)
  show ?thesis
  proof (cases "e + k \<le> 971")
    case True
    with r assms(2) xk show ?thesis by (intro is_doubleI[of _ m "e + k"]) simp_all
  next
    case False
    then have ge: "971 \<le> e + k" by simp
    define j where "j = m * 2 ^ nat (e + k - 971)"
    have eq: "x * 2 powr of_int k = of_int j * 2 powr of_int 971"
      unfolding xk j_def by (subst p2_diff[OF ge]) (simp only: of_int_mult of_int_power of_int_numeral mult.assoc)
    have "\<bar>x * 2 powr of_int k\<bar> < huge" using assms(3) by (simp add: abs_mult)
    then have "\<bar>real_of_int j * 2 powr of_int 971\<bar> < 2 powr of_int (971 + 53)"
      unfolding eq huge_971 .
    then have "\<bar>j\<bar> < 2 ^ 53" by (rule repr_bound)
    with eq show ?thesis by (intro is_doubleI[of _ j 971]) simp_all
  qed
qed

lemma is_double_times:
  assumes "is_double x" "\<bar>x\<bar> * 2 ^ n < huge"
  shows "is_double (2 ^ n * x)"
proof -
  have "is_double (x * 2 powr of_int (int n))"
    using assms by (intro is_double_scale) (simp_all add: powr_realpow)
  then show ?thesis by (simp add: powr_realpow mult.commute)
qed

lemma double_repr_expo:
  assumes "is_double v" "v \<noteq> 0"
  shows "\<exists>J. v = of_int J * 2 powr of_int (expo v) \<and> \<bar>J\<bar> < 2 ^ 53 \<and> expo v \<le> 971"
proof -
  from assms(1) obtain m e where r: "v = of_int m * 2 powr of_int e" "\<bar>m\<bar> < 2 ^ 53" "- 1074 \<le> e" "e \<le> 971"
    unfolding is_double_def by blast
  have le: "expo v \<le> e" by (rule expo_le_of_repr[OF r(1,2,3) assms(2)])
  define J where "J = round_even (v / 2 powr of_int (expo v))"
  have "rnd v = v" by (rule is_double_rnd[OF assms(1)])
  then have v: "v = of_int J * 2 powr of_int (expo v)" by (simp add: rnd_def J_def)
  have "\<bar>v\<bar> < 2 powr of_int (expo v + 53)" by (rule expo_upper[OF assms(2)])
  then have "\<bar>real_of_int J * 2 powr of_int (expo v)\<bar> < 2 powr of_int (expo v + 53)"
    using v by simp
  then have "\<bar>J\<bar> < 2 ^ 53" by (rule repr_bound)
  with v le r(4) show ?thesis by auto
qed

lemma next_double:
  assumes "is_double v" "v \<noteq> 0" "v + 2 powr of_int (expo v) < huge"
  shows "is_double (v + 2 powr of_int (expo v))"
proof -
  define E where "E = expo v"
  from double_repr_expo[OF assms(1,2)] obtain J where
    J: "v = of_int J * 2 powr of_int E" "\<bar>J\<bar> < 2 ^ 53" "E \<le> 971" unfolding E_def by blast
  have w: "v + 2 powr of_int E = of_int (J + 1) * 2 powr of_int E"
    by (subst J(1)) (simp add: algebra_simps)
  have E: "- 1074 \<le> E" by (simp add: E_def expo_ge)
  show ?thesis
  proof (cases "J + 1 = 2 ^ 53")
    case False
    with J(2) have "\<bar>J + 1\<bar> < 2 ^ 53" by linarith
    with w J(3) E show ?thesis unfolding E_def[symmetric] by (intro is_doubleI[of _ "J + 1" E]) simp_all
  next
    case True
    have eq: "v + 2 powr of_int E = 2 powr of_int (E + 53)"
      unfolding w True using p2_diff[of E "E + 53"] by (simp add: nat_add_distrib)
    have "(2::real) powr of_int (E + 53) < 2 powr of_int 1024"
      using assms(3) unfolding E_def[symmetric] eq huge_p2 .
    then have "E + 53 < 1024" by (simp only: p2_less)
    then have "is_double (2 powr of_int (E + 53))" using E by (intro is_double_p2) simp_all
    then show ?thesis unfolding E_def[symmetric] eq .
  qed
qed

lemma double_pos_ge_tiny:
  assumes "is_double s" "0 < s"
  shows "2 powr of_int (- 1074) \<le> s"
  using doubles_apart[OF is_double_0 assms] by simp

lemma ulp_le_step:
  assumes "v \<noteq> 0" "is_double s" "0 < s" "\<bar>v\<bar> \<le> 2 ^ 52 * s"
  shows "2 powr of_int (expo v) \<le> s"
proof (cases "expo v = - 1074")
  case True
  then show ?thesis using double_pos_ge_tiny[OF assms(2,3)] by simp
next
  case False
  then have "- 1074 < expo v" using expo_ge[of v] by simp
  from expo_lower[OF assms(1) this] assms(4)
  have "2 powr of_int (expo v + 52) \<le> 2 ^ 52 * s" by simp
  also have "(2::real) powr of_int (expo v + 52) = of_int (2 ^ 52) * 2 powr of_int (expo v)"
    using p2_diff[of "expo v" "expo v + 52"] by (simp add: nat_add_distrib)
  finally show ?thesis by simp
qed

lemma add_step_advances:
  assumes "is_double v" "is_double s" "0 < s" "\<bar>v\<bar> \<le> 2 ^ 52 * s" "is_double D" "v + s \<le> D"
  shows "\<exists>w. fl (v + s) = Num w \<and> v < w \<and> w \<le> D \<and> is_double w"
proof (cases "v = 0")
  case True
  with assms show ?thesis by (simp add: fl_double)
next
  case False
  define u where "u = (2::real) powr of_int (expo v)"
  have u: "0 < u" "u \<le> s"
    unfolding u_def using ulp_le_step[OF False assms(2,3,4)] by simp_all
  have "v + u \<le> D" using u(2) assms(6) by simp
  also have "D < huge" using is_double_bound[OF assms(5)] by simp
  finally have "is_double (v + u)" unfolding u_def by (rule next_double[OF assms(1) False])
  moreover have "v + u \<le> v + s" using u(2) by simp
  ultimately obtain w where "fl (v + s) = Num w" "v + u \<le> w" "w \<le> D" "is_double w"
    using fl_between[OF _ assms(6) _ assms(5)] by blast
  with u(1) show ?thesis by auto
qed

lemma fl_eval:
  assumes "2 powr of_int k \<le> \<bar>x\<bar>" "\<bar>x\<bar> < 2 powr of_int (k + 1)" "- 1022 \<le> k" "k \<le> 1022"
  shows "fl x = Num (of_int (round_even (x / 2 powr of_int (k - 52))) * 2 powr of_int (k - 52))"
proof -
  have x: "x \<noteq> 0" using assms(1) less_le_trans[OF p2_pos assms(1)] by auto
  have e: "expo x = k - 52" using expo_eq[OF assms(1,2)] assms(3) by simp
  have "\<bar>rnd x\<bar> \<le> 2 powr of_int (expo x + 53)" by (rule rnd_abs_upper[OF x])
  also have "\<dots> \<le> 2 powr of_int 1023" unfolding e using assms(4) by (simp only: p2_le)
  also have "\<dots> < huge" unfolding huge_p2 by (simp only: p2_less)
  finally have "\<bar>rnd x\<bar> < huge" .
  then have "fl x = Num (rnd x)" by (auto simp: fl_alt)
  then show ?thesis by (simp add: rnd_def e)
qed

lemma fl_numeral: "numeral w \<le> (2 ^ 53 :: int) \<Longrightarrow> fl (numeral w) = Num (numeral w)"
  using fl_double[OF is_double_of_int[of "numeral w"]] by simp

lemma is_double_numeral: "numeral w \<le> (2 ^ 53 :: int) \<Longrightarrow> is_double (numeral w)"
  using is_double_of_int[of "numeral w"] by simp

lemma window_nonempty_init: "window_nonempty init_state"
  by (simp add: window_nonempty_def init_state_def)

lemma clamp_ge: "a \<le> clamp v a b"
  by (simp add: clamp_def)

lemma window_nonempty_wheel_zoom:
  assumes "window_nonempty s"
  shows "window_nonempty (wheel_zoom s r f)"
proof -
  have "(5 * 60 * 1000 :: real) \<le> view_x1 (wheel_zoom s r f) - view_x0 (wheel_zoom s r f)"
    unfolding wheel_zoom_span by (rule clamp_ge)
  with assms show ?thesis
    by (simp add: window_nonempty_def wheel_zoom_frame)
qed

lemma window_nonempty_handle:
  assumes "window_nonempty s"
  shows "window_nonempty (handle s e)"
proof (cases e)
  case (MouseMove clientX clientY rect)
  show ?thesis
  proof (cases "isPanning s")
    case True
    with assms show ?thesis
      by (simp add: MouseMove window_nonempty_def mousemove_frame mousemove_pan_view(2))
  next
    case False
    with assms show ?thesis
      by (simp add: MouseMove window_nonempty_def mousemove_frame mousemove_hover_view)
  qed
next
  case (Wheel clientX deltaY rect)
  with assms show ?thesis
    by (simp add: wheel_def Let_def window_nonempty_wheel_zoom)
next
  case (RangeChange v)
  with assms show ?thesis
    by (auto simp: window_nonempty_def rangeChange_def Let_def)
qed (use assms in \<open>simp_all add: window_nonempty_def mouseleave_def mousedown_def mouseup_def
       rightAxisChange_def resetClick_def Let_def\<close>)

lemma window_nonempty_run: "window_nonempty s \<Longrightarrow> window_nonempty (run s es)"
  by (induction es arbitrary: s) (simp_all add: window_nonempty_handle)



lemma draw_Some:
  assumes "draw s w = Some dr"
  shows "p_x0 (dr_plot dr) = view_x0 s" "p_x1 (dr_plot dr) = view_x1 s"
    "dr_yLeftDomain dr = domainForKey (data s) Key_temp_OUT (view_x0 s, view_x1 s)"
    "dr_yRightDomain dr = domainForKey (data s) (rightKey s) (view_x0 s, view_x1 s)"
    "dr_series dr = drawSeries (data s) (dr_plot dr) Key_temp_OUT (rightKey s)
                      (dr_yLeftDomain dr) (dr_yRightDomain dr)"
  using assms by (auto simp: draw_def Let_def split: if_splits)

lemma flat_span:
  assumes "\<bar>m\<bar> < 2 ^ 53"
  shows "\<exists>lo hi. sub64 (Num m) (Num 1) = Num lo \<and> add64 (Num m) (Num 1) = Num hi
           \<and> lo < hi \<and> is_double lo \<and> is_double hi"
proof -
  define a where "a = \<lceil>m\<rceil> - 1"
  define b where "b = \<lfloor>m\<rfloor> + 1"
  have "\<lceil>m\<rceil> \<le> \<lfloor>m\<rfloor> + 1" by linarith
  then have ab: "real_of_int a < of_int b" by (simp add: a_def b_def)
  have m1: "m < 2 ^ 53" and m2: "- (2 ^ 53) < m" using assms by (simp_all add: abs_less_iff)
  have "\<lceil>m\<rceil> \<le> 2 ^ 53" using m1 by (simp add: ceiling_le_iff)
  moreover have "- (2 ^ 53) < \<lceil>m\<rceil>" using m2 by (simp add: less_ceiling_iff)
  ultimately have "\<bar>a\<bar> \<le> 2 ^ 53" unfolding a_def by linarith
  then have da: "is_double (of_int a)" by (rule is_double_of_int)
  have "\<lfloor>m\<rfloor> < 2 ^ 53" using m1 by (simp add: floor_less_iff)
  moreover have "- (2 ^ 53) \<le> \<lfloor>m\<rfloor>" using m2 by (simp add: le_floor_iff)
  ultimately have "\<bar>b\<bar> \<le> 2 ^ 53" unfolding b_def by linarith
  then have db: "is_double (of_int b)" by (rule is_double_of_int)
  have d54: "is_double (2 powr of_int 54)" "is_double (- (2 powr of_int 54))"
    using is_double_p2[of 54] by simp_all
  have p54: "(2::real) powr of_int 54 = 2 ^ 54" using p2_numeral[of 54] by simp
  have "m - 1 \<le> of_int a" unfolding a_def by linarith
  moreover have "- (2 powr of_int 54) \<le> m - 1" using m2 unfolding p54 by simp
  ultimately obtain lo where lo: "fl (m - 1) = Num lo" "lo \<le> of_int a" "is_double lo"
    using fl_between[OF _ _ d54(2) da, of "m - 1"] by blast
  have "of_int b \<le> m + 1" unfolding b_def by linarith
  moreover have "m + 1 \<le> 2 powr of_int 54" using m1 unfolding p54 by simp
  ultimately obtain hi where hi: "fl (m + 1) = Num hi" "of_int b \<le> hi" "is_double hi"
    using fl_between[OF _ _ db d54(1), of "m + 1"] by blast
  from lo(2) ab hi(2) have "lo < hi" by linarith
  with lo hi show ?thesis by (simp add: sub64_Num add64_Num)
qed

lemma fl_006: "\<exists>c. lit_006 = Num c \<and> 0 < c \<and> is_double c"
proof -
  have d: "is_double (2 powr of_int (- 5))" "is_double (2 powr of_int 0)"
    by (rule is_double_p2; simp)+
  have "(2::real) powr of_int (- 5) = 1 / 32"
    by (simp add: powr_minus divide_simps)
  then have "(2::real) powr of_int (- 5) \<le> 6 / 100" by simp
  moreover have "(6::real) / 100 \<le> 2 powr of_int 0" by simp
  ultimately obtain c where "lit_006 = Num c" "2 powr of_int (- 5) \<le> c" "is_double c"
    using fl_between[OF _ _ d, of "6 / 100"] unfolding lit_006_def by auto
  moreover from this(2) have "0 < c" by (rule less_le_trans[OF p2_pos])
  ultimately show ?thesis by blast
qed

lemma padded_span:
  assumes "is_double mn" "is_double mx" "mn < mx"
  defines "pad \<equiv> mul64 (sub64 (Num mx) (Num mn)) lit_006"
  shows "(sub64 (Num mn) pad = NegInf \<or> (\<exists>lo. sub64 (Num mn) pad = Num lo \<and> lo \<le> mn \<and> is_double lo))
       \<and> (add64 (Num mx) pad = PosInf \<or> (\<exists>hi. add64 (Num mx) pad = Num hi \<and> mx \<le> hi \<and> is_double hi))"
proof -
  obtain c where c: "lit_006 = Num c" "0 < c" using fl_006 by blast
  have "2 powr of_int (- 1074) \<le> mx - mn"
    using doubles_apart[OF assms(1,2,3)] by simp
  from fl_pos[OF this] have "pad = PosInf \<or> (\<exists>q. pad = Num q \<and> 0 \<le> q)"
  proof
    assume "fl (mx - mn) = PosInf"
    then show ?thesis using c(2) by (simp add: pad_def sub64_Num mul64_def c(1))
  next
    assume "\<exists>r. fl (mx - mn) = Num r \<and> 0 < r \<and> is_double r"
    then obtain r where r: "fl (mx - mn) = Num r" "0 < r" by blast
    have "0 \<le> r * c" using r(2) c(2) by simp
    from fl_ge_double[OF this is_double_0] show ?thesis
      by (auto simp: pad_def sub64_Num mul64_Num r(1) c(1))
  qed
  then show ?thesis
  proof
    assume "pad = PosInf"
    then show ?thesis by (simp add: sub64_def add64_def js_sub_def)
  next
    assume "\<exists>q. pad = Num q \<and> 0 \<le> q"
    then obtain q where q: "pad = Num q" "0 \<le> q" by blast
    have "mn - q \<le> mn" "mx \<le> mx + q" using q(2) by simp_all
    from fl_le_double[OF this(1) assms(1)] fl_ge_double[OF this(2) assms(2)]
    show ?thesis by (simp add: q(1) sub64_Num add64_Num)
  qed
qed

lemma span_nonzero:
  assumes "js_less lo hi" "js_double lo" "js_double hi"
  shows "js_less (Num 0) (sub64 hi lo)"
proof (cases "\<exists>a b. lo = Num a \<and> hi = Num b")
  case True
  then obtain a b where ab: "lo = Num a" "hi = Num b" by blast
  with assms have "is_double a" "is_double b" "a < b" by simp_all
  then have "2 powr of_int (- 1074) \<le> b - a" using doubles_apart[of a b] by simp
  from fl_pos[OF this] show ?thesis
    by (auto simp: ab sub64_Num)
next
  case False
  with assms(1) show ?thesis
    by (cases lo; cases hi) (simp_all add: sub64_def js_sub_def)
qed

lemma foldl_min_in: "foldl min (a::real) vs \<in> set (a # vs)"
  by (induction vs arbitrary: a) (auto simp: min_def)

lemma foldl_max_in: "foldl max (a::real) vs \<in> set (a # vs)"
  by (induction vs arbitrary: a) (auto simp: max_def)

lemma visible_values_double:
  assumes "list_all (\<lambda>p. js_double (channel k p)) d" "v \<in> set (visible_values k domainX d)"
  shows "is_double v"
  using assms
  by (induction d) (auto simp: visible_values_Cons visible_values_Nil split: if_splits jsnum.splits)

lemma domainForKey_f64_values:
  "domainForKey_f64 d k domainX =
     (case visible_values k domainX d of
        [] \<Rightarrow> (Num 0, Num 1)
      | v # vs \<Rightarrow>
          let mn = foldl min v vs; mx = foldl max v vs
          in if mn = mx then (sub64 (Num mn) (Num 1), add64 (Num mx) (Num 1))
             else (sub64 (Num mn) (mul64 (sub64 (Num mx) (Num mn)) lit_006),
                   add64 (Num mx) (mul64 (sub64 (Num mx) (Num mn)) lit_006)))"
  by (simp add: domainForKey_f64_def domain_loop_start Let_def split: list.splits)

lemma flat_values:
  fixes v :: real
  assumes "foldl min v vs = foldl max v vs"
  shows "list_all (\<lambda>w. w = v) (v # vs)"
proof -
  have "w = v" if "w \<in> set (v # vs)" for w
  proof -
    have v: "foldl min v vs \<le> v" "v \<le> foldl max v vs"
      using foldl_min_le[of v vs] foldl_max_ge[of v vs] by simp_all
    have "foldl min v vs \<le> w \<and> w \<le> foldl max v vs"
    proof (cases "w = v")
      case True
      with v show ?thesis by simp
    next
      case False
      with that have "w \<in> set vs" by simp
      then show ?thesis using foldl_min_mem[of w vs v] foldl_max_mem[of w vs v] by simp
    qed
    with v assms show ?thesis by simp
  qed
  then show ?thesis unfolding list_all_iff by blast
qed

lemma domainForKey_f64_span:
  assumes "list_all (\<lambda>p. js_double (channel k p)) d"
      and "\<not> flat_large (visible_values k domainX d)"
  shows "js_less (fst (domainForKey_f64 d k domainX)) (snd (domainForKey_f64 d k domainX))
         \<and> js_double (fst (domainForKey_f64 d k domainX))
         \<and> js_double (snd (domainForKey_f64 d k domainX))"
proof (cases "visible_values k domainX d")
  case Nil
  have "is_double 1" using is_double_of_int[of 1] by simp
  then show ?thesis by (simp add: domainForKey_f64_values Nil)
next
  case (Cons v vs)
  define mn where "mn = foldl min v vs"
  define mx where "mx = foldl max v vs"
  have "mn \<in> set (visible_values k domainX d)" "mx \<in> set (visible_values k domainX d)"
    unfolding Cons mn_def mx_def using foldl_min_in[of v vs] foldl_max_in[of v vs] by simp_all
  then have dbl: "is_double mn" "is_double mx"
    using visible_values_double[OF assms(1)] by blast+
  show ?thesis
  proof (cases "mn = mx")
    case True
    then have "list_all (\<lambda>w. w = v) (v # vs)" unfolding mn_def mx_def by (rule flat_values)
    with assms(2) have "\<bar>v\<bar> < 2 ^ 53" by (simp add: flat_large_def Cons)
    moreover have "mn = v" using foldl_min_le[of v vs] foldl_max_ge[of v vs] True
      unfolding mn_def mx_def by simp
    ultimately have "\<bar>mn\<bar> < 2 ^ 53" by simp
    from flat_span[OF this] obtain lo hi where
      "sub64 (Num mn) (Num 1) = Num lo" "add64 (Num mn) (Num 1) = Num hi" "lo < hi"
      "is_double lo" "is_double hi" by blast
    then show ?thesis
      using True by (simp add: domainForKey_f64_values Cons Let_def flip: mn_def mx_def)
  next
    case False
    have "mn \<le> mx" unfolding mn_def mx_def by (rule foldl_min_le_max)
    with False have lt: "mn < mx" by simp
    from padded_span[OF dbl lt] lt show ?thesis
      using False by (auto simp: domainForKey_f64_values Cons Let_def simp flip: mn_def mx_def)
  qed
qed

lemma fl_ex_flat:
  "fl 9999999999999999 = Num 10000000000000000" "fl 10000000000000001 = Num 10000000000000000"
  by (subst fl_eval[of 53], simp_all add: round_even_def powr_minus)
     (subst fl_eval[of 53], simp_all add: round_even_def powr_minus)

text \<open>
  C8 (as amended). In double precision the domain returned by \<open>domainForKey\<close> has a
  strictly positive span (infinite when the padding overflows), so the divisor \<open>y1 - y0\<close>
  of \<open>yToPx\<close> is not zero, for every channel of doubles, unless all its visible finite
  values are one number of magnitude \<open>2 ^ 53\<close> or more. After the load of a dataset whose first and last timestamps differ,
  in every state the events reach, the divisor \<open>x1 - x0\<close> of \<open>xToPx\<close> is not zero, for
  every render.
\<close>

theorem transforms_never_divide_by_zero:
  assumes "main_install (run init_state es0) pts = Inr s0"
      and "pt_x (pts ! 0) < pt_x (pts ! (length pts - 1))"
      and "list_all event_ok es0"
      and "list_all event_ok es"
      and "draw (run s0 es) containerWidth = Some dr"
      and "list_all (\<lambda>p. js_double (channel k p)) d"
      and "\<not> flat_large (visible_values k domainX d)"
  shows "js_less (fst (domainForKey_f64 d k domainX)) (snd (domainForKey_f64 d k domainX))
         \<and> js_less (Num 0) (sub64 (snd (domainForKey_f64 d k domainX)) (fst (domainForKey_f64 d k domainX)))
         \<and> p_x1 (dr_plot dr) - p_x0 (dr_plot dr) \<noteq> 0"
proof -
  note s0 = main_install_Inr(2)[OF assms(1)]
  have "window_nonempty (run init_state es0)"
    by (rule window_nonempty_run[OF window_nonempty_init])
  then have "window_nonempty s0"
    using assms(2) by (simp add: s0 window_nonempty_def)
  then have "window_nonempty (run s0 es)" by (rule window_nonempty_run)
  then have x: "p_x1 (dr_plot dr) - p_x0 (dr_plot dr) \<noteq> 0"
    by (simp add: draw_Some(1,2)[OF assms(5)] window_nonempty_def)
  note y = domainForKey_f64_span[OF assms(6,7)]
  from y have "js_less (Num 0) (sub64 (snd (domainForKey_f64 d k domainX)) (fst (domainForKey_f64 d k domainX)))"
    by (intro span_nonzero) simp_all
  with x y show ?thesis by blast
qed

theorem transforms_never_divide_by_zero_witness:
  "main_install (run init_state []) [ex_point 0, ex_point 3600000]
     = Inr (init_state\<lparr> data := [ex_point 0, ex_point 3600000], xDomainAll := (0, 3600000),
                         view_x0 := 0, view_x1 := 3600000 \<rparr>)
   \<and> pt_x ([ex_point 0, ex_point 3600000] ! 0)
       < pt_x ([ex_point 0, ex_point 3600000] ! (length [ex_point 0, ex_point 3600000] - 1))
   \<and> list_all event_ok []
   \<and> list_all event_ok [RangeChange ''6h'', MouseDown 300 ex_rect, MouseMove 200 0 ex_rect]
   \<and> draw (run (init_state\<lparr> data := [ex_point 0, ex_point 3600000], xDomainAll := (0, 3600000),
                         view_x0 := 0, view_x1 := 3600000 \<rparr>)
              [RangeChange ''6h'', MouseDown 300 ex_rect, MouseMove 200 0 ex_rect]) 1128
       = Some \<lparr> dr_plot = \<lparr> p_left = 64, p_right = 1064, p_top = 42, p_bottom = 474,
                              p_x0 = 0, p_x1 = 3600000 \<rparr>,
                  dr_yLeftDomain = (19, 21), dr_yRightDomain = (4, 6),
                  dr_series = ([MoveTo (Num 64) (Num 258), LineTo (Num 1064) (Num 258)],
                               [MoveTo (Num 64) (Num 258), LineTo (Num 1064) (Num 258)]) \<rparr>
   \<and> list_all (\<lambda>p. js_double (channel Key_temp_OUT p)) [ex_point 0, ex_point 3600000]
   \<and> \<not> flat_large (visible_values Key_temp_OUT (0, 3600000) [ex_point 0, ex_point 3600000])
   \<and> domainForKey_f64 [ex_point 0, ex_point 3600000] Key_temp_OUT (0, 3600000) = (Num 19, Num 21)
   \<and> js_less (Num 0) (sub64 (Num 21) (Num 19))"
proof -
  have 1: "main_install (run init_state []) [ex_point 0, ex_point 3600000]
     = Inr (init_state\<lparr> data := [ex_point 0, ex_point 3600000], xDomainAll := (0, 3600000),
                         view_x0 := 0, view_x1 := 3600000 \<rparr>)"
    by (simp add: main_install_def ex_point_def)
  have 2: "pt_x ([ex_point 0, ex_point 3600000] ! 0)
       < pt_x ([ex_point 0, ex_point 3600000] ! (length [ex_point 0, ex_point 3600000] - 1))"
    by (simp add: ex_point_def)
  have 3: "list_all event_ok []" by simp
  have 4: "list_all event_ok [RangeChange ''6h'', MouseDown 300 ex_rect, MouseMove 200 0 ex_rect]"
    by (simp add: plot_has_width_def ex_rect_def padding_left_def padding_right_def)
  have 5: "draw (run (init_state\<lparr> data := [ex_point 0, ex_point 3600000], xDomainAll := (0, 3600000),
                         view_x0 := 0, view_x1 := 3600000 \<rparr>)
              [RangeChange ''6h'', MouseDown 300 ex_rect, MouseMove 200 0 ex_rect]) 1128
       = Some \<lparr> dr_plot = \<lparr> p_left = 64, p_right = 1064, p_top = 42, p_bottom = 474,
                              p_x0 = 0, p_x1 = 3600000 \<rparr>,
                  dr_yLeftDomain = (19, 21), dr_yRightDomain = (4, 6),
                  dr_series = ([MoveTo (Num 64) (Num 258), LineTo (Num 1064) (Num 258)],
                               [MoveTo (Num 64) (Num 258), LineTo (Num 1064) (Num 258)]) \<rparr>"
    by (simp add: draw_def init_state_def ex_point_def ex_rect_def Let_def rangeChange_def
          mousedown_def mousemove_def clamp_def
          domainForKey_def drawSeries_def xToPx_def yToPx_def js_div_def js_sub_def
          padding_left_def padding_right_def padding_top_def padding_bottom_def legendH_def)
  have 6: "list_all (\<lambda>p. js_double (channel Key_temp_OUT p)) [ex_point 0, ex_point 3600000]"
    by (simp add: ex_point_def is_double_numeral)
  have 7: "\<not> flat_large (visible_values Key_temp_OUT (0, 3600000) [ex_point 0, ex_point 3600000])"
    by (simp add: flat_large_def visible_values_Cons visible_values_Nil ex_point_def)
  have 8: "domainForKey_f64 [ex_point 0, ex_point 3600000] Key_temp_OUT (0, 3600000) = (Num 19, Num 21)"
    by (simp add: domainForKey_f64_def ex_point_def Let_def sub64_Num add64_Num fl_numeral)
  from transforms_never_divide_by_zero[OF 1 2 3 4 5 6 7] 1 2 3 4 5 6 7 8 show ?thesis
    by simp
qed

text \<open>
  C8 as stated fails twice. After the load of a single point the view is \<open>[x, x]\<close>, and
  the render divides by \<open>x1 - x0 = 0\<close>: the pixel position of the point is \<open>NaN\<close>. And for
  a channel that is \<open>1e16\<close> throughout, \<open>min - 1\<close> and \<open>max + 1\<close> both round to \<open>1e16\<close>: the
  domain is \<open>[1e16, 1e16]\<close> and the divisor \<open>y1 - y0\<close> is zero.
\<close>

theorem transforms_divide_by_zero_counterexample:
  "\<not> isl (main_install init_state [ex_point 0])
   \<and> draw (projr (main_install init_state [ex_point 0])) 1128 \<noteq> None
   \<and> p_x1 (dr_plot (the (draw (projr (main_install init_state [ex_point 0])) 1128)))
       - p_x0 (dr_plot (the (draw (projr (main_install init_state [ex_point 0])) 1128))) = 0
   \<and> xToPx (pt_x (ex_point 0))
        (dr_plot (the (draw (projr (main_install init_state [ex_point 0])) 1128))) = NaN
   \<and> list_all (\<lambda>p. js_double (channel Key_temp_OUT p)) ex_flat
   \<and> domainForKey_f64 ex_flat Key_temp_OUT (0, 3600000)
       = (Num 10000000000000000, Num 10000000000000000)
   \<and> sub64 (snd (domainForKey_f64 ex_flat Key_temp_OUT (0, 3600000)))
        (fst (domainForKey_f64 ex_flat Key_temp_OUT (0, 3600000))) = Num 0"
proof -
  have x: "\<not> isl (main_install init_state [ex_point 0])
   \<and> draw (projr (main_install init_state [ex_point 0])) 1128 \<noteq> None
   \<and> p_x1 (dr_plot (the (draw (projr (main_install init_state [ex_point 0])) 1128)))
       - p_x0 (dr_plot (the (draw (projr (main_install init_state [ex_point 0])) 1128))) = 0
   \<and> xToPx (pt_x (ex_point 0))
        (dr_plot (the (draw (projr (main_install init_state [ex_point 0])) 1128))) = NaN"
    by (simp add: main_install_def init_state_def ex_point_def draw_def Let_def xToPx_def js_div_def)
  have "is_double 10000000000000000"
    by (rule is_doubleI[of _ 5000000000000000 1]) simp_all
  then have d: "list_all (\<lambda>p. js_double (channel Key_temp_OUT p)) ex_flat"
    by (simp add: ex_flat_def)
  have y: "domainForKey_f64 ex_flat Key_temp_OUT (0, 3600000)
             = (Num 10000000000000000, Num 10000000000000000)"
    by (simp add: domainForKey_f64_def ex_flat_def Let_def sub64_Num add64_Num fl_ex_flat)
  have "sub64 (Num 10000000000000000) (Num 10000000000000000) = Num 0"
    by (simp add: sub64_Num fl_def)
  with x d y show ?thesis by simp
qed







section \<open>Properties of hit-testing\<close>

lemma sorted_pt_x:
  assumes "sorted (map pt_x d)" "i \<le> j" "j < length d"
  shows "pt_x (d ! i) \<le> pt_x (d ! j)"
  using sorted_nth_mono[OF assms(1), of i j] assms(2,3) by simp

lemma bsearch_lower_bound:
  assumes "sorted (map pt_x d)" "lo \<le> hi" "hi < length d"
      and "\<forall>i<lo. pt_x (d ! i) < t"
      and "\<forall>i. hi \<le> i \<and> i < length d - 1 \<longrightarrow> t \<le> pt_x (d ! i)"
  shows "lo \<le> bsearch d (Num t) lo hi \<and> bsearch d (Num t) lo hi \<le> hi
         \<and> (\<forall>i < bsearch d (Num t) lo hi. pt_x (d ! i) < t)
         \<and> (\<forall>i. bsearch d (Num t) lo hi \<le> i \<and> i < length d - 1 \<longrightarrow> t \<le> pt_x (d ! i))"
  using assms
proof (induction d "Num t" lo hi rule: bsearch.induct)
  case (1 d lo hi)
  show ?case
  proof (cases "lo < hi")
    case False
    then have e: "bsearch d (Num t) lo hi = lo"
      by (subst bsearch.simps) simp
    from False "1.prems" show ?thesis unfolding e by simp
  next
    case True
    define mid where "mid = (lo + hi) div 2"
    have m: "lo \<le> mid" "mid < hi" using True by (simp_all add: mid_def)
    show ?thesis
    proof (cases "pt_x (d ! mid) < t")
      case less: True
      have e: "bsearch d (Num t) lo hi = bsearch d (Num t) (mid + 1) hi"
        using True less by (subst bsearch.simps) (simp add: mid_def Let_def)
      have below: "\<forall>i<mid + 1. pt_x (d ! i) < t"
      proof (intro allI impI)
        fix i assume "i < mid + 1"
        then have "pt_x (d ! i) \<le> pt_x (d ! mid)"
          using m "1.prems"(3) by (intro sorted_pt_x[OF "1.prems"(1)]) simp_all
        with less show "pt_x (d ! i) < t" by simp
      qed
      have "mid + 1 \<le> bsearch d (Num t) (mid + 1) hi \<and> bsearch d (Num t) (mid + 1) hi \<le> hi
         \<and> (\<forall>i < bsearch d (Num t) (mid + 1) hi. pt_x (d ! i) < t)
         \<and> (\<forall>i. bsearch d (Num t) (mid + 1) hi \<le> i \<and> i < length d - 1 \<longrightarrow> t \<le> pt_x (d ! i))"
        using True less m "1.prems" below
        by (intro "1.hyps"(1)[of mid]) (simp_all add: mid_def)
      with m show ?thesis unfolding e by simp
    next
      case ge: False
      have e: "bsearch d (Num t) lo hi = bsearch d (Num t) lo mid"
        using True ge by (subst bsearch.simps) (simp add: mid_def Let_def)
      have above: "\<forall>i. mid \<le> i \<and> i < length d - 1 \<longrightarrow> t \<le> pt_x (d ! i)"
      proof (intro allI impI)
        fix i assume "mid \<le> i \<and> i < length d - 1"
        then have "mid \<le> i" "i < length d" by arith+
        then have "pt_x (d ! mid) \<le> pt_x (d ! i)"
          by (intro sorted_pt_x[OF "1.prems"(1)])
        with ge show "t \<le> pt_x (d ! i)" by simp
      qed
      have "lo \<le> bsearch d (Num t) lo mid \<and> bsearch d (Num t) lo mid \<le> mid
         \<and> (\<forall>i < bsearch d (Num t) lo mid. pt_x (d ! i) < t)
         \<and> (\<forall>i. bsearch d (Num t) lo mid \<le> i \<and> i < length d - 1 \<longrightarrow> t \<le> pt_x (d ! i))"
        using True ge m "1.prems" above
        by (intro "1.hyps"(2)[of mid]) (simp_all add: mid_def)
      with m show ?thesis unfolding e by simp
    qed
  qed
qed

lemma nearer_PosInf:
  "nearer d (Num t) (int i) (b, PosInf) = (int i, Num \<bar>pt_x (d ! i) - t\<bar>)"
  by (simp add: nearer_def js_sub_def)

lemma nearer_Num:
  "nearer d (Num t) (int i) (b, Num m) =
     (if \<bar>pt_x (d ! i) - t\<bar> < m then (int i, Num \<bar>pt_x (d ! i) - t\<bar>) else (b, Num m))"
  by (simp add: nearer_def js_sub_def)

lemma bsearch_facts:
  fixes t :: real
  assumes "sorted (map pt_x d)" "d \<noteq> []"
  defines "r \<equiv> bsearch d (Num t) 0 (length d - 1)"
  shows "r < length d" "\<forall>i<r. pt_x (d ! i) < t" "\<forall>i. r \<le> i \<and> i < length d - 1 \<longrightarrow> t \<le> pt_x (d ! i)"
proof -
  have n: "length d - 1 < length d" using assms(2) by simp
  have "0 \<le> r \<and> r \<le> length d - 1 \<and> (\<forall>i<r. pt_x (d ! i) < t)
        \<and> (\<forall>i. r \<le> i \<and> i < length d - 1 \<longrightarrow> t \<le> pt_x (d ! i))"
    unfolding r_def by (rule bsearch_lower_bound[OF assms(1) _ n]) simp_all
  with n show "r < length d" "\<forall>i<r. pt_x (d ! i) < t"
      "\<forall>i. r \<le> i \<and> i < length d - 1 \<longrightarrow> t \<le> pt_x (d ! i)"
    by simp_all
qed

lemma nearest_index_pick:
  fixes t :: real
  assumes "sorted (map pt_x d)" "d \<noteq> []"
  shows "nearest_index d (Num t) = Some (int (pick d t))"
proof -
  define r where "r = bsearch d (Num t) 0 (length d - 1)"
  note f = bsearch_facts[OF assms, of t, folded r_def]
  define D where "D i = \<bar>pt_x (d ! i) - t\<bar>" for i
  have up: "D r \<le> D (r + 1)" if "r + 1 < length d"
  proof -
    from that have "r < length d - 1" by simp
    with f(3) have "t \<le> pt_x (d ! r)" by simp
    moreover have "pt_x (d ! r) \<le> pt_x (d ! (r + 1))"
      using that by (intro sorted_pt_x[OF assms(1)]) simp_all
    ultimately show ?thesis by (simp add: D_def)
  qed
  have ni: "nearest_index d (Num t) =
      (case filter (\<lambda>i. 0 \<le> i \<and> i < int (length d)) [int r, int r - 1, int r + 1] of
         [] \<Rightarrow> None
       | c # cs \<Rightarrow> Some (fst (fold (nearer d (Num t))
            (filter (\<lambda>i. 0 \<le> i \<and> i < int (length d)) [int r, int r - 1, int r + 1]) (c, PosInf))))"
    unfolding nearest_index_def r_def Let_def ..
  have pk: "pick d t = (if 1 \<le> r \<and> D (r - 1) < D r then r - 1 else r)"
    unfolding pick_def r_def D_def Let_def ..
  have n0: "nearer d (Num t) (int i) (b, PosInf) = (int i, Num (D i))" for i b
    unfolding D_def by (rule nearer_PosInf)
  have n1: "nearer d (Num t) (int i) (b, Num m) = (if D i < m then (int i, Num (D i)) else (b, Num m))"
    for i b m unfolding D_def by (rule nearer_Num)
  have n1a: "nearer d (Num t) (1 + int r) (b, Num m) =
      (if D (r + 1) < m then (1 + int r, Num (D (r + 1))) else (b, Num m))" for b m
    using n1[of "r + 1" b m] by (simp add: add.commute)
  have n1b: "nearer d (Num t) (int r - 1) (b, Num m) =
      (if D (r - 1) < m then (int r - 1, Num (D (r - 1))) else (b, Num m))" if "1 \<le> r" for b m
    using n1[of "r - 1" b m] that by (simp add: of_nat_diff)
  show ?thesis
  proof (cases "1 \<le> r")
    case r1: True
    show ?thesis
    proof (cases "r + 1 < length d")
      case True
      have cands: "filter (\<lambda>i. 0 \<le> i \<and> i < int (length d)) [int r, int r - 1, int r + 1]
                   = [int r, int (r - 1), int (r + 1)]"
        using r1 True f(1) by simp
      show ?thesis
        unfolding ni cands pk using up[OF True] r1 by (auto simp: n0 n1a n1b)
    next
      case False
      have cands: "filter (\<lambda>i. 0 \<le> i \<and> i < int (length d)) [int r, int r - 1, int r + 1]
                   = [int r, int (r - 1)]"
        using r1 False f(1) by simp
      show ?thesis
        unfolding ni cands pk using r1 by (auto simp: n0 n1a n1b)
    qed
  next
    case r0: False
    show ?thesis
    proof (cases "r + 1 < length d")
      case True
      have cands: "filter (\<lambda>i. 0 \<le> i \<and> i < int (length d)) [int r, int r - 1, int r + 1]
                   = [int r, int (r + 1)]"
        using r0 True f(1) by simp
      show ?thesis
        unfolding ni cands pk using up[OF True] r0 by (auto simp: n0 n1a)
    next
      case False
      have cands: "filter (\<lambda>i. 0 \<le> i \<and> i < int (length d)) [int r, int r - 1, int r + 1]
                   = [int r]"
        using r0 False f(1) by simp
      show ?thesis
        unfolding ni cands pk using r0 by (auto simp: n0)
    qed
  qed
qed

lemma pick_props:
  fixes t :: real
  assumes "sorted (map pt_x d)" "d \<noteq> []"
  shows "pick d t < length d"
    and "\<forall>i<length d. \<bar>pt_x (d ! pick d t) - t\<bar> \<le> \<bar>pt_x (d ! i) - t\<bar>"
    and "t \<le> pt_x (d ! pick d t) \<longrightarrow> (\<forall>i<pick d t. pt_x (d ! i) < t)"
    and "pt_x (d ! pick d t) < t \<longrightarrow>
           (\<forall>i. pick d t < i \<and> i < length d \<longrightarrow> \<bar>pt_x (d ! pick d t) - t\<bar> < \<bar>pt_x (d ! i) - t\<bar>)"
proof -
  define r where "r = bsearch d (Num t) 0 (length d - 1)"
  note f = bsearch_facts[OF assms, of t, folded r_def]
  define X where "X i = pt_x (d ! i)" for i
  have pk: "pick d t = (if 1 \<le> r \<and> \<bar>X (r - 1) - t\<bar> < \<bar>X r - t\<bar> then r - 1 else r)"
    unfolding pick_def r_def X_def Let_def ..
  have mono: "X i \<le> X j" if "i \<le> j" "j < length d" for i j
    unfolding X_def using that by (rule sorted_pt_x[OF assms(1)])
  have below: "X i < t" if "i < r" for i using f(2) that by (simp add: X_def)
  have above: "t \<le> X i" if "r \<le> i" "i < length d" "r < length d - 1" for i
  proof -
    have "t \<le> X r" using f(3) that(3) by (simp add: X_def)
    also have "X r \<le> X i" using that by (intro mono)
    finally show ?thesis .
  qed
  have last: "r = length d - 1" if "X r < t"
  proof (rule ccontr)
    assume "r \<noteq> length d - 1"
    with f(1) have "r < length d - 1" by simp
    with f(3) have "t \<le> X r" by (simp add: X_def)
    with that show False by simp
  qed
  show "pick d t < length d" using f(1) by (auto simp: pk)
  show "\<forall>i<length d. \<bar>pt_x (d ! pick d t) - t\<bar> \<le> \<bar>pt_x (d ! i) - t\<bar>"
  proof (intro allI impI)
    fix i assume i: "i < length d"
    show "\<bar>pt_x (d ! pick d t) - t\<bar> \<le> \<bar>pt_x (d ! i) - t\<bar>"
    proof (cases "1 \<le> r \<and> \<bar>X (r - 1) - t\<bar> < \<bar>X r - t\<bar>")
      case True
      then have p: "pick d t = r - 1" unfolding pk by (rule if_P)
      from True have b1: "X (r - 1) < t" by (intro below) simp
      have ge: "t \<le> X r"
      proof (rule ccontr)
        assume "\<not> t \<le> X r"
        moreover have "X (r - 1) \<le> X r" using f(1) by (intro mono) simp_all
        ultimately show False using True b1 by simp
      qed
      show ?thesis
      proof (cases "i < r")
        case True
        then have "X i \<le> X (r - 1)" using f(1) by (intro mono) simp_all
        with b1 show ?thesis unfolding p X_def[symmetric] by simp
      next
        case False
        then have "X r \<le> X i" using i by (intro mono) simp_all
        with ge True show ?thesis unfolding p X_def[symmetric] by simp
      qed
    next
      case False
      then have p: "pick d t = r" unfolding pk by (rule if_not_P)
      show ?thesis
      proof (cases "X r < t")
        case True
        then have "r = length d - 1" by (rule last)
        with i have "X i \<le> X r" using f(1) by (intro mono) simp_all
        with True show ?thesis unfolding p X_def[symmetric] by simp
      next
        case ge: False
        show ?thesis
        proof (cases "i < r")
          case True
          then have r1: "1 \<le> r" by simp
          from True have "X i \<le> X (r - 1)" using f(1) by (intro mono) simp_all
          moreover have "X (r - 1) < t" using r1 by (intro below) simp
          moreover have "\<not> \<bar>X (r - 1) - t\<bar> < \<bar>X r - t\<bar>" using False r1 by simp
          ultimately show ?thesis unfolding p X_def[symmetric] using ge by simp
        next
          case False
          then have "X r \<le> X i" using i by (intro mono) simp_all
          with ge show ?thesis unfolding p X_def[symmetric] by simp
        qed
      qed
    qed
  qed
  show "t \<le> pt_x (d ! pick d t) \<longrightarrow> (\<forall>i<pick d t. pt_x (d ! i) < t)"
  proof (intro impI allI)
    fix i assume a: "t \<le> pt_x (d ! pick d t)" "i < pick d t"
    have "pick d t \<le> r" by (auto simp: pk)
    with a(2) have "i < r" by simp
    then show "pt_x (d ! i) < t" using below by (simp add: X_def)
  qed
  show "pt_x (d ! pick d t) < t \<longrightarrow>
           (\<forall>i. pick d t < i \<and> i < length d \<longrightarrow> \<bar>pt_x (d ! pick d t) - t\<bar> < \<bar>pt_x (d ! i) - t\<bar>)"
  proof (intro impI allI)
    fix i assume a: "pt_x (d ! pick d t) < t" "pick d t < i \<and> i < length d"
    show "\<bar>pt_x (d ! pick d t) - t\<bar> < \<bar>pt_x (d ! i) - t\<bar>"
    proof (cases "1 \<le> r \<and> \<bar>X (r - 1) - t\<bar> < \<bar>X r - t\<bar>")
      case True
      then have p: "pick d t = r - 1" unfolding pk by (rule if_P)
      from True have b1: "X (r - 1) < t" by (intro below) simp
      have ge: "t \<le> X r"
      proof (rule ccontr)
        assume "\<not> t \<le> X r"
        moreover have "X (r - 1) \<le> X r" using f(1) by (intro mono) simp_all
        ultimately show False using True b1 by simp
      qed
      from a(2) True have "r \<le> i" unfolding p by linarith
      then have "X r \<le> X i" using a(2) by (intro mono) simp_all
      with ge True show ?thesis unfolding p X_def[symmetric] by simp
    next
      case False
      then have p: "pick d t = r" unfolding pk by (rule if_not_P)
      from a(1) have "X r < t" unfolding p X_def .
      then have "r = length d - 1" by (rule last)
      with a(2) have False unfolding p by linarith
      then show ?thesis ..
    qed
  qed
qed

lemma hitTest_inside:
  assumes "data s \<noteq> []" "sorted (map pt_x (data s))"
      and "r_width rect - padding_right - padding_left \<noteq> 0"
      and "padding_left \<le> mouseX - r_left rect" "mouseX - r_left rect \<le> r_width rect - padding_right"
      and "padding_top + legendH \<le> mouseY - r_top rect"
      and "mouseY - r_top rect \<le> r_height rect - padding_bottom"
  shows "map_option hit_p (hitTest s mouseX mouseY rect) =
           Some (data s ! pick (data s)
                   (view_x0 s + (mouseX - r_left rect - padding_left)
                                  / (r_width rect - padding_right - padding_left)
                                  * (view_x1 s - view_x0 s)))"
  using assms
  by (simp add: hitTest_def Let_def js_div_def nearest_index_pick not_less)

text \<open>
  C3 (as amended). For a non-empty time-sorted sequence and a pixel inside a plot
  rectangle of non-zero width, hit-testing returns a point whose absolute time distance
  to the target time \<open>t\<close> is minimal over the whole sequence. Among several points at
  that distance it returns the first point of the sequence with \<open>x \<ge> t\<close> when it is one
  of them, and otherwise the last of them. For \<open>x = [0,10,20,30,40]\<close> and the pixel
  mapping to time 22 the point at \<open>x = 20\<close> is returned.
\<close>

theorem hitTest_nearest:
  assumes "data s \<noteq> []" "sorted (map pt_x (data s))"
      and "r_width rect - padding_right - padding_left \<noteq> 0"
      and "padding_left \<le> mouseX - r_left rect" "mouseX - r_left rect \<le> r_width rect - padding_right"
      and "padding_top + legendH \<le> mouseY - r_top rect"
      and "mouseY - r_top rect \<le> r_height rect - padding_bottom"
  shows "(let t = view_x0 s + (mouseX - r_left rect - padding_left)
                                / (r_width rect - padding_right - padding_left)
                                * (view_x1 s - view_x0 s)
          in \<exists>b < length (data s).
               map_option hit_p (hitTest s mouseX mouseY rect) = Some (data s ! b)
               \<and> (\<forall>i < length (data s). \<bar>pt_x (data s ! b) - t\<bar> \<le> \<bar>pt_x (data s ! i) - t\<bar>)
               \<and> (t \<le> pt_x (data s ! b) \<longrightarrow> (\<forall>i < b. pt_x (data s ! i) < t))
               \<and> (pt_x (data s ! b) < t \<longrightarrow>
                    (\<forall>i. b < i \<and> i < length (data s)
                          \<longrightarrow> \<bar>pt_x (data s ! b) - t\<bar> < \<bar>pt_x (data s ! i) - t\<bar>)))
         \<and> map_option (pt_x \<circ> hit_p)
               (hitTest (projr (main_install init_state ex_five)) 614 100 ex_rect) = Some 20"
proof -
  define t where "t = view_x0 s + (mouseX - r_left rect - padding_left)
                                / (r_width rect - padding_right - padding_left)
                                * (view_x1 s - view_x0 s)"
  note h = hitTest_inside[OF assms, folded t_def]
  note p = pick_props[OF assms(2,1), of t]
  have general: "\<exists>b < length (data s).
               map_option hit_p (hitTest s mouseX mouseY rect) = Some (data s ! b)
               \<and> (\<forall>i < length (data s). \<bar>pt_x (data s ! b) - t\<bar> \<le> \<bar>pt_x (data s ! i) - t\<bar>)
               \<and> (t \<le> pt_x (data s ! b) \<longrightarrow> (\<forall>i < b. pt_x (data s ! i) < t))
               \<and> (pt_x (data s ! b) < t \<longrightarrow>
                    (\<forall>i. b < i \<and> i < length (data s)
                          \<longrightarrow> \<bar>pt_x (data s ! b) - t\<bar> < \<bar>pt_x (data s ! i) - t\<bar>))"
    using h p by (intro exI[of _ "pick (data s) t"]) blast
  have example: "map_option (pt_x \<circ> hit_p)
               (hitTest (projr (main_install init_state ex_five)) 614 100 ex_rect) = Some 20"
    by (simp add: main_install_def hitTest_def Let_def init_state_def ex_five_def ex_sample_def
          ex_rect_def js_div_def
          js_sub_def nearest_index_def nearer_def bsearch.simps
          padding_left_def padding_right_def padding_top_def padding_bottom_def legendH_def)
  from general example show ?thesis unfolding Let_def t_def by blast
qed

theorem hitTest_nearest_witness:
  "data (projr (main_install init_state ex_five)) \<noteq> []
   \<and> sorted (map pt_x (data (projr (main_install init_state ex_five))))
   \<and> r_width ex_rect - padding_right - padding_left \<noteq> 0
   \<and> padding_left \<le> 614 - r_left ex_rect \<and> 614 - r_left ex_rect \<le> r_width ex_rect - padding_right
   \<and> padding_top + legendH \<le> 100 - r_top ex_rect
   \<and> 100 - r_top ex_rect \<le> r_height ex_rect - padding_bottom
   \<and> view_x0 (projr (main_install init_state ex_five))
        + (614 - r_left ex_rect - padding_left) / (r_width ex_rect - padding_right - padding_left)
          * (view_x1 (projr (main_install init_state ex_five))
              - view_x0 (projr (main_install init_state ex_five))) = 22
   \<and> map_option hit_p (hitTest (projr (main_install init_state ex_five)) 614 100 ex_rect)
        = Some (ex_sample 20 3)"
  using hitTest_nearest [of "projr (main_install init_state ex_five)" ex_rect 614 100]
  by (simp add: main_install_def hitTest_def Let_def init_state_def ex_five_def ex_sample_def
          ex_rect_def js_div_def
          js_sub_def nearest_index_def nearer_def bsearch.simps
          padding_left_def padding_right_def padding_top_def padding_bottom_def legendH_def)

text \<open>
  C3 as stated fails on ties. With \<open>x = [0, 20, 20, 1000]\<close> shown on a plot of 1000
  pixels, the pixel of time 21 returns the second of the two points at \<open>x = 20\<close>, and the
  pixel of time 10 returns the point at \<open>x = 20\<close>, not the equally near point at \<open>x = 0\<close>
  that comes first in sort order.
\<close>

theorem hitTest_tie_counterexample:
  "map_option hit_p (hitTest (projr (main_install init_state ex_dups)) 85 100 ex_rect)
     = Some (ex_dups ! 2)
   \<and> pt_x (ex_dups ! 1) = pt_x (ex_dups ! 2) \<and> ex_dups ! 1 \<noteq> ex_dups ! 2
   \<and> map_option hit_p (hitTest (projr (main_install init_state ex_dups)) 74 100 ex_rect)
     = Some (ex_dups ! 1)
   \<and> \<bar>pt_x (ex_dups ! 0) - 10\<bar> = \<bar>pt_x (ex_dups ! 1) - 10\<bar> \<and> ex_dups ! 0 \<noteq> ex_dups ! 1"
  by (simp add: main_install_def hitTest_def Let_def init_state_def ex_dups_def ex_sample_def
          ex_rect_def js_div_def
          js_sub_def nearest_index_def nearer_def bsearch.simps
          padding_left_def padding_right_def padding_top_def padding_bottom_def legendH_def)

section \<open>Properties of the tick step\<close>

lemma closest_mem: "closest raw cs s \<in> set (s # cs)"
  by (induction cs arbitrary: s) auto

lemma js_not_less_trans:
  assumes "a \<noteq> NaN" "b \<noteq> NaN" "c \<noteq> NaN" "\<not> js_less b a" "\<not> js_less c b"
  shows "\<not> js_less c a"
  using assms by (cases a; cases b; cases c) auto

lemma closest_le_init:
  assumes "\<forall>c \<in> set (s # cs). Math_abs (sub64 c raw) \<noteq> NaN"
  shows "\<not> js_less (Math_abs (sub64 s raw)) (Math_abs (sub64 (closest raw cs s) raw))"
  using assms
proof (induction cs arbitrary: s)
  case Nil
  then show ?case by (cases "Math_abs (sub64 s raw)") simp_all
next
  case (Cons c cs)
  let ?k = "\<lambda>x. Math_abs (sub64 x raw)"
  let ?s = "if js_less (?k c) (?k s) then c else s"
  have nn: "?k s \<noteq> NaN" "?k c \<noteq> NaN" "?k ?s \<noteq> NaN" using Cons.prems by auto
  have mem: "closest raw cs ?s \<in> set (s # c # cs)" using closest_mem[of raw cs ?s] by auto
  have nr: "?k (closest raw cs ?s) \<noteq> NaN" using Cons.prems mem by blast
  have ih: "\<not> js_less (?k ?s) (?k (closest raw cs ?s))"
    by (rule Cons.IH) (use Cons.prems in auto)
  have st: "\<not> js_less (?k s) (?k ?s)"
    using nn by (cases "?k s"; cases "?k c") auto
  from js_not_less_trans[OF nr nn(3) nn(1) ih st] show ?case by simp
qed

lemma closest_min:
  assumes "\<forall>c \<in> set (s # cs). Math_abs (sub64 c raw) \<noteq> NaN" "c \<in> set (s # cs)"
  shows "\<not> js_less (Math_abs (sub64 c raw)) (Math_abs (sub64 (closest raw cs s) raw))"
  using assms
proof (induction cs arbitrary: s)
  case Nil
  then show ?case by (cases "Math_abs (sub64 s raw)") simp_all
next
  case (Cons a cs)
  let ?k = "\<lambda>x. Math_abs (sub64 x raw)"
  let ?s = "if js_less (?k a) (?k s) then a else s"
  have nn: "?k s \<noteq> NaN" "?k a \<noteq> NaN" "?k ?s \<noteq> NaN" "?k c \<noteq> NaN" using Cons.prems by auto
  have mem: "closest raw cs ?s \<in> set (s # a # cs)" using closest_mem[of raw cs ?s] by auto
  have nr: "?k (closest raw cs ?s) \<noteq> NaN" using Cons.prems mem by blast
  have all: "\<forall>c \<in> set (?s # cs). ?k c \<noteq> NaN" using Cons.prems by auto
  have init: "\<not> js_less (?k ?s) (?k (closest raw cs ?s))" by (rule closest_le_init[OF all])
  from Cons.prems(2) consider "c = s" | "c = a" | "c \<in> set cs" by auto
  then show ?case
  proof cases
    case 1
    have "\<not> js_less (?k s) (?k ?s)" using nn by (cases "?k s"; cases "?k a") auto
    from js_not_less_trans[OF nr nn(3) nn(1) init this] 1 show ?thesis by simp
  next
    case 2
    have "\<not> js_less (?k a) (?k ?s)" using nn by (cases "?k s"; cases "?k a") auto
    from js_not_less_trans[OF nr nn(3) nn(2) init this] 2 show ?thesis by simp
  next
    case 3
    then have "\<not> js_less (?k c) (?k (closest raw cs ?s))"
      by (intro Cons.IH[OF all]) simp
    then show ?thesis by simp
  qed
qed

lemma ticks_loop_ends_within:
  assumes "is_double s" "0 < s" "is_double D" "B + s \<le> D" "B \<le> 2 ^ 52 * s"
      and "is_double v" "- (2 ^ 52 * s) \<le> v" "B - v < of_nat n * 2 powr of_int (- 1074)"
  shows "\<exists>ts. ticks_loop (Num v) (Num B) (Num s) ticks = Some ts"
  using assms(6,7,8)
proof (induction n arbitrary: v ticks)
  case 0
  then have "\<not> v \<le> B" by simp
  then show ?case by (subst ticks_loop.simps) simp
next
  case (Suc n)
  show ?case
  proof (cases "v \<le> B")
    case False
    then show ?thesis by (subst ticks_loop.simps) simp
  next
    case True
    have "\<bar>v\<bar> \<le> 2 ^ 52 * s" using True assms(5) Suc.prems(2) by (simp add: abs_le_iff)
    moreover have "v + s \<le> D" using True assms(4) by simp
    ultimately obtain w where w: "fl (v + s) = Num w" "v < w" "is_double w"
      using add_step_advances[OF Suc.prems(1) assms(1,2) _ assms(3)] by blast
    have "v + 2 powr of_int (- 1074) \<le> w" by (rule doubles_apart[OF Suc.prems(1) w(3,2)])
    with Suc.prems(3) have "B - w < of_nat n * 2 powr of_int (- 1074)"
      by (simp add: algebra_simps)
    moreover have "- (2 ^ 52 * s) \<le> w" using w(2) Suc.prems(2) by simp
    ultimately obtain ts where "ticks_loop (Num w) (Num B) (Num s) (ticks @ [Num v]) = Some ts"
      using Suc.IH[OF w(3)] by blast
    then show ?thesis using True by (subst ticks_loop.simps) (simp add: add64_Num w(1))
  qed
qed

lemma ticks_loop_ends:
  assumes "is_double s" "0 < s" "is_double D" "B + s \<le> D" "B \<le> 2 ^ 52 * s"
      and "is_double v" "- (2 ^ 52 * s) \<le> v"
  shows "\<exists>ts. ticks_loop (Num v) (Num B) (Num s) ticks = Some ts"
proof -
  obtain n :: nat where "B - v < of_nat n * 2 powr of_int (- 1074)"
    using ex_less_of_nat_mult[of "2 powr of_int (- 1074)" "B - v"] by auto
  then show ?thesis by (rule ticks_loop_ends_within[OF assms])
qed

lemma raw_cases:
  assumes "is_double a" "is_double b" "a < b" "0 < n"
  shows "div64 (Math_abs (sub64 (Num b) (Num a))) (Num n) = PosInf
         \<or> (\<exists>q. div64 (Math_abs (sub64 (Num b) (Num a))) (Num n) = Num q \<and> 0 \<le> q)"
proof -
  have "2 powr of_int (- 1074) \<le> b - a" using doubles_apart[OF assms(1,2,3)] by simp
  from fl_pos[OF this] show ?thesis
  proof
    assume "fl (b - a) = PosInf"
    then show ?thesis using assms(4) by (simp add: sub64_Num)
  next
    assume "\<exists>r. fl (b - a) = Num r \<and> 0 < r \<and> is_double r"
    then obtain r where r: "fl (b - a) = Num r" "0 < r" by blast
    have "0 \<le> r / n" using r(2) assms(4) by simp
    from fl_ge_double[OF this is_double_0] show ?thesis
      using assms(4) r(2) by (auto simp: sub64_Num r(1) js_div_def)
  qed
qed

lemma key_not_NaN:
  assumes "raw = PosInf \<or> (\<exists>q. raw = Num q)"
  shows "Math_abs (sub64 (Num c) raw) \<noteq> NaN"
  using assms
proof
  assume "raw = PosInf"
  then show ?thesis by (simp add: sub64_def js_sub_def)
next
  assume "\<exists>q. raw = Num q"
  then obtain q where "raw = Num q" by blast
  then show ?thesis using fl_cases[of "c - q"] by (auto simp: sub64_Num)
qed

lemma candidate_bounds:
  assumes "is_double p" "0 < p" "p * 2 ^ 64 < huge" "1 \<le> m" "m \<le> 16"
  shows "\<exists>c. mul64 (Num m) (Num p) = Num c \<and> p \<le> c \<and> c \<le> 2 ^ 4 * p \<and> is_double c"
proof -
  have "\<bar>p\<bar> * 2 ^ 4 \<le> p * 2 ^ 64" using assms(2) by simp
  with assms(3) have "\<bar>p\<bar> * 2 ^ 4 < huge" by simp
  then have d: "is_double (2 ^ 4 * p)" by (rule is_double_times[OF assms(1)])
  have "p \<le> m * p" using assms(2,4) by simp
  moreover have "m * p \<le> 2 ^ 4 * p" using assms(2,5) by simp
  ultimately show ?thesis
    using fl_between[OF _ _ assms(1) d, of "m * p"] by (simp add: mul64_Num)
qed

lemma niceTicks_returns:
  assumes ab: "is_double a" "is_double b" "a < b" and n: "0 < n"
      and pw: "Math_pow M (Num 10)
                 (Math_floor (Math_log10 M (div64 (Math_abs (sub64 (Num b) (Num a))) (Num n)))) = Num p"
      and p: "is_double p" "0 < p" "p * 2 ^ 64 < huge"
      and mag: "\<bar>a\<bar> \<le> 2 ^ 49 * p" "\<bar>b\<bar> \<le> 2 ^ 49 * p"
  defines "raw \<equiv> div64 (Math_abs (sub64 (Num b) (Num a))) (Num n)"
  defines "cs \<equiv> [mul64 (Num 1) (Num p), mul64 (Num 2) (Num p), mul64 (Num 5) (Num p), mul64 (Num 10) (Num p)]"
  shows "\<exists>ticks. niceTicks M (Num a) (Num b) (Num n) = Some (closest raw cs (cs ! 0), ticks)"
    and "closest raw cs (cs ! 0) \<in> set cs"
    and "\<forall>c \<in> set cs. \<not> js_less (Math_abs (sub64 c raw)) (Math_abs (sub64 (closest raw cs (cs ! 0)) raw))"
proof -
  define good where "good x \<longleftrightarrow> (\<exists>c. x = Num c \<and> p \<le> c \<and> c \<le> 2 ^ 4 * p \<and> is_double c)" for x
  have raw: "raw = PosInf \<or> (\<exists>q. raw = Num q)"
    using raw_cases[OF ab n] unfolding raw_def by blast
  have g: "\<forall>x \<in> set cs. good x"
    unfolding cs_def good_def using candidate_bounds[OF p, of 1] candidate_bounds[OF p, of 2]
      candidate_bounds[OF p, of 5] candidate_bounds[OF p, of 10] by simp
  have mem: "closest raw cs (cs ! 0) \<in> set cs"
    using closest_mem[of raw cs "cs ! 0"] by (auto simp: cs_def)
  then show "closest raw cs (cs ! 0) \<in> set cs" .
  have nn: "\<forall>c \<in> set (cs ! 0 # cs). Math_abs (sub64 c raw) \<noteq> NaN"
  proof
    fix c assume "c \<in> set (cs ! 0 # cs)"
    then have "c \<in> set cs" by (auto simp: cs_def)
    with g obtain x where "c = Num x" unfolding good_def by blast
    then show "Math_abs (sub64 c raw) \<noteq> NaN" using key_not_NaN[OF raw] by simp
  qed
  show "\<forall>c \<in> set cs. \<not> js_less (Math_abs (sub64 c raw)) (Math_abs (sub64 (closest raw cs (cs ! 0)) raw))"
    using closest_min[OF nn] by simp
  from mem g obtain s where s: "closest raw cs (cs ! 0) = Num s" "p \<le> s" "s \<le> 2 ^ 4 * p" "is_double s"
    unfolding good_def by blast
  have s0: "0 < s" using p(2) s(2) by simp
  have sh: "\<bar>s\<bar> * 2 ^ 60 < huge"
  proof -
    have "\<bar>s\<bar> * 2 ^ 60 \<le> (2 ^ 4 * p) * 2 ^ 60" using s(3) s0 by simp
    also have "\<dots> = p * 2 ^ 64" by simp
    finally show ?thesis using p(3) by simp
  qed
  have d49: "is_double (2 ^ 49 * s)" "is_double (- (2 ^ 49 * s))"
   and d50: "is_double (2 ^ 50 * s)" and d51: "is_double (2 ^ 51 * s)"
  proof -
    have "\<bar>s\<bar> * 2 ^ 49 \<le> \<bar>s\<bar> * 2 ^ 60" "\<bar>s\<bar> * 2 ^ 50 \<le> \<bar>s\<bar> * 2 ^ 60" "\<bar>s\<bar> * 2 ^ 51 \<le> \<bar>s\<bar> * 2 ^ 60"
      by simp_all
    with sh have lt: "\<bar>s\<bar> * 2 ^ 49 < huge" "\<bar>s\<bar> * 2 ^ 50 < huge" "\<bar>s\<bar> * 2 ^ 51 < huge" by linarith+
    show 49: "is_double (2 ^ 49 * s)" by (rule is_double_times[OF s(4) lt(1)])
    show "is_double (- (2 ^ 49 * s))" using 49 by (simp only: is_double_minus)
    show "is_double (2 ^ 50 * s)" by (rule is_double_times[OF s(4) lt(2)])
    show "is_double (2 ^ 51 * s)" by (rule is_double_times[OF s(4) lt(3)])
  qed
  have i49: "is_double (2 ^ 49)" "is_double (- (2 ^ 49))"
    using is_double_of_int[of "2 ^ 49"] by simp_all
  have quot: "\<exists>q. div64 (Num x) (Num s) = Num q \<and> - (2 ^ 49) \<le> q \<and> q \<le> 2 ^ 49" if "\<bar>x\<bar> \<le> 2 ^ 49 * p" for x
  proof -
    have "\<bar>x\<bar> \<le> 2 ^ 49 * s" using that s(2) by simp
    then have "- (2 ^ 49 * s) \<le> x" "x \<le> 2 ^ 49 * s" by linarith+
    then have "- (2 ^ 49) \<le> x / s" "x / s \<le> 2 ^ 49" using s0 by (simp_all add: field_simps)
    from fl_between[OF this i49(2,1)] show ?thesis using s0 by (auto simp: js_div_def)
  qed
  have prod: "\<exists>t. mul64 (Num (of_int k)) (Num s) = Num t \<and> - (2 ^ 49 * s) \<le> t \<and> t \<le> 2 ^ 49 * s \<and> is_double t"
    if "- (2 ^ 49) \<le> k" "k \<le> 2 ^ 49" for k :: int
  proof -
    have "real_of_int (- (2 ^ 49)) \<le> of_int k" "real_of_int k \<le> of_int (2 ^ 49)"
      using that by (simp_all only: of_int_le_iff)
    then have "- (2 ^ 49) \<le> real_of_int k" "real_of_int k \<le> 2 ^ 49" by simp_all
    then have "- (2 ^ 49 * s) \<le> of_int k * s" "of_int k * s \<le> 2 ^ 49 * s"
      using s0 by (simp_all flip: mult_minus_left)
    from fl_between[OF this d49(2,1)] show ?thesis by (simp add: mul64_Num)
  qed
  obtain qa where qa: "div64 (Num a) (Num s) = Num qa" "- (2 ^ 49) \<le> qa" "qa \<le> 2 ^ 49"
    using quot[OF mag(1)] by blast
  obtain qb where qb: "div64 (Num b) (Num s) = Num qb" "- (2 ^ 49) \<le> qb" "qb \<le> 2 ^ 49"
    using quot[OF mag(2)] by blast
  have "- (2 ^ 49) \<le> \<lfloor>qa\<rfloor>" "\<lfloor>qa\<rfloor> \<le> 2 ^ 49" using qa(2,3) by (simp_all add: le_floor_iff floor_le_iff) 
  from prod[OF this] obtain st where
    st: "mul64 (Num (of_int \<lfloor>qa\<rfloor>)) (Num s) = Num st" "- (2 ^ 49 * s) \<le> st" "is_double st" by blast
  have "- (2 ^ 49) \<le> \<lceil>qb\<rceil>" "\<lceil>qb\<rceil> \<le> 2 ^ 49" using qb(2,3) by (simp_all add: le_ceiling_iff ceiling_le_iff)
  from prod[OF this] obtain en where
    en: "mul64 (Num (of_int \<lceil>qb\<rceil>)) (Num s) = Num en" "en \<le> 2 ^ 49 * s" "- (2 ^ 49 * s) \<le> en" by blast
  have "0 \<le> s * (1 / 2)" "s * (1 / 2) \<le> s" using s0 by simp_all
  from fl_between[OF this is_double_0 s(4)] obtain h where
    h: "mul64 (Num s) (Num (1 / 2)) = Num h" "0 \<le> h" "h \<le> s" by (auto simp: mul64_Num)
  have "- (2 ^ 49 * s) \<le> en + h" using en(3) h(2) by simp
  moreover have "en + h \<le> 2 ^ 50 * s" using en(2) h(3) s0 by simp
  ultimately obtain B where B: "add64 (Num en) (Num h) = Num B" "B \<le> 2 ^ 50 * s"
    using fl_between[OF _ _ d49(2) d50, of "en + h"] by (auto simp: add64_Num)
  have "B + s \<le> 2 ^ 51 * s" using B(2) s0 by simp
  moreover have "B \<le> 2 ^ 52 * s" using B(2) s0 by simp
  moreover have "- (2 ^ 52 * s) \<le> st" using st(2) s0 by simp
  ultimately obtain ts where ts: "ticks_loop (Num st) (Num B) (Num s) [] = Some ts"
    using ticks_loop_ends[OF s(4) s0 d51 _ _ st(3)] by blast
  have c0: "map (\<lambda>x. mul64 (Num x) (Num p)) [1, 2, 5, 10] = cs" by (simp add: cs_def)
  have "niceTicks M (Num a) (Num b) (Num n) = Some (closest raw cs (cs ! 0), ts)"
    using ab(3) unfolding niceTicks_def Let_def raw_def[symmetric] pw[unfolded raw_def[symmetric]] c0 s(1)
    by (simp add: qa(1) qb(1) st(1) en(1) h(1) B(1) ts del: div64.simps(1))
  then show "\<exists>ticks. niceTicks M (Num a) (Num b) (Num n) = Some (closest raw cs (cs ! 0), ticks)"
    by blast
qed

lemma fl_raw_100_6: "fl (50 / 3) = Num (4691249611844267 / 281474976710656)"
  by (subst fl_eval[of 4]) (simp_all add: round_even_def powr_minus)

lemma fl_dist_100_6:
  "fl (- (1876499844737707 / 281474976710656)) = Num (- (1876499844737707 / 281474976710656))"
  "fl (938249922368853 / 281474976710656) = Num (938249922368853 / 281474976710656)"
  "fl (9382499223688533 / 281474976710656) = Num (2345624805922133 / 70368744177664)"
  "fl (23456248059221333 / 281474976710656) = Num (5864062014805333 / 70368744177664)"
  by (subst fl_eval[of 2], simp_all add: round_even_def powr_minus)
     (subst fl_eval[of 1], simp_all add: round_even_def powr_minus,
      subst fl_eval[of 5], simp_all add: round_even_def powr_minus,
      subst fl_eval[of 6], simp_all add: round_even_def powr_minus)

lemma closest_100_6:
  "closest (Num (4691249611844267 / 281474976710656))
     [mul64 (Num 1) (Num 10), mul64 (Num 2) (Num 10), mul64 (Num 5) (Num 10), mul64 (Num 10) (Num 10)]
     (mul64 (Num 1) (Num 10)) = Num 20"
  by (simp add: mul64_Num sub64_Num fl_numeral fl_dist_100_6)

lemma raw_100_6: "div64 (Math_abs (sub64 (Num 100) (Num 0))) (Num 6) = Num (4691249611844267 / 281474976710656)"
  by (simp add: sub64_Num fl_numeral js_div_def fl_raw_100_6)

lemma niceTicks_100_6:
  assumes "Math_floor (Math_log10 M (fl (100 / 6))) = Num 1" "Math_pow M (Num 10) (Num 1) = Num 10"
  shows "map_option fst (niceTicks M (Num 0) (Num 100) (Num 6)) = Some (Num 20)"
proof -
  have pw: "Math_pow M (Num 10)
              (Math_floor (Math_log10 M (div64 (Math_abs (sub64 (Num 100) (Num 0))) (Num 6)))) = Num 10"
    using assms by (simp add: raw_100_6 fl_raw_100_6)
  have "\<exists>ticks. niceTicks M (Num 0) (Num 100) (Num 6) =
          Some (closest (div64 (Math_abs (sub64 (Num 100) (Num 0))) (Num 6))
                  [mul64 (Num 1) (Num 10), mul64 (Num 2) (Num 10), mul64 (Num 5) (Num 10), mul64 (Num 10) (Num 10)]
                  ([mul64 (Num 1) (Num 10), mul64 (Num 2) (Num 10), mul64 (Num 5) (Num 10), mul64 (Num 10) (Num 10)] ! 0),
                ticks)"
    by (rule niceTicks_returns(1)[OF _ _ _ _ pw]) (simp_all add: is_double_numeral huge_def)
  then obtain ticks where "niceTicks M (Num 0) (Num 100) (Num 6) = Some (Num 20, ticks)"
    unfolding raw_100_6 nth_Cons_0 closest_100_6 by blast
  then show ?thesis by simp
qed

lemma stuck_step:
  "add64 (Num 10000000000000000) (Num (3602879701896397 / 18014398509481984)) = Num 10000000000000000"
  unfolding add64_Num
  by (subst fl_eval[of 53]) (simp_all add: round_even_def powr_minus)

lemma loop_stuck:
  "ticks_loop (Num 10000000000000000) (Num 10000000000000002)
     (Num (3602879701896397 / 18014398509481984)) ticks = None"
proof -
  have "\<not> (v = Num 10000000000000000 \<and> bound = Num 10000000000000002
            \<and> step = Num (3602879701896397 / 18014398509481984))"
    if "ticks_loop v bound step ticks = Some ts" for v bound step ticks ts
  proof (rule ticks_loop.raw_induct[where P = "\<lambda>v bound step ticks ts.
            \<not> (v = Num 10000000000000000 \<and> bound = Num 10000000000000002
               \<and> step = Num (3602879701896397 / 18014398509481984))", OF _ that])
    fix f v bound step ticks ts
    assume ih: "\<And>v bound step ticks ts. f v bound step ticks = Some ts \<Longrightarrow>
            \<not> (v = Num 10000000000000000 \<and> bound = Num 10000000000000002
               \<and> step = Num (3602879701896397 / 18014398509481984))"
      and eq: "(if js_le v bound then f (add64 v step) bound step (ticks @ [v]) else Some ticks) = Some ts"
    show "\<not> (v = Num 10000000000000000 \<and> bound = Num 10000000000000002
               \<and> step = Num (3602879701896397 / 18014398509481984))"
    proof
      assume a: "v = Num 10000000000000000 \<and> bound = Num 10000000000000002
               \<and> step = Num (3602879701896397 / 18014398509481984)"
      then have "f (Num 10000000000000000) bound step (ticks @ [v]) = Some ts"
        using eq by (simp add: stuck_step)
      from ih[OF this] a show False by simp
    qed
  qed
  then have "ticks_loop (Num 10000000000000000) (Num 10000000000000002)
                 (Num (3602879701896397 / 18014398509481984)) ticks \<noteq> Some ts" for ts
    by blast
  then show ?thesis by (simp only: not_Some_eq[symmetric] not_False_eq_True) simp
qed

lemma fl_stuck:
  "fl (1 / 3) = Num (6004799503160661 / 18014398509481984)"
  "fl (3602879701896397 / 36028797018963968) = Num (3602879701896397 / 36028797018963968)"
  "fl (3602879701896397 / 18014398509481984) = Num (3602879701896397 / 18014398509481984)"
  "fl (18014398509481985 / 36028797018963968) = Num (1 / 2)"
  "fl (18014398509481985 / 18014398509481984) = Num 1"
  "fl (- (8406719304424925 / 36028797018963968)) = Num (- (8406719304424925 / 36028797018963968))"
  "fl (- (300239975158033 / 2251799813685248)) = Num (- (300239975158033 / 2251799813685248))"
  "fl (3002399751580331 / 18014398509481984) = Num (3002399751580331 / 18014398509481984)"
  "fl (12009599006321323 / 18014398509481984) = Num (3002399751580331 / 4503599627370496)"
  "fl (180143985094819840000000000000000 / 3602879701896397) = Num 50000000000000000"
  "fl (180143985094819876028797018963968 / 3602879701896397) = Num 50000000000000008"
  "fl (2748779069440000152587890625 / 274877906944) = Num 10000000000000000"
  "fl (22517998136852484852879701896397 / 2251799813685248) = Num 10000000000000002"
  "fl (360287970189639755660473739824333 / 36028797018963968) = Num 10000000000000002"
  by (subst fl_eval[of "- 2"], simp_all add: round_even_def powr_minus)
     (subst fl_eval[of "- 4"], simp_all add: round_even_def powr_minus,
      subst fl_eval[of "- 3"], simp_all add: round_even_def powr_minus,
      subst fl_eval[of "- 1"], simp_all add: round_even_def powr_minus,
      subst fl_eval[of 0], simp_all add: round_even_def powr_minus,
      subst fl_eval[of "- 3"], simp_all add: round_even_def powr_minus,
      subst fl_eval[of "- 3"], simp_all add: round_even_def powr_minus,
      subst fl_eval[of "- 3"], simp_all add: round_even_def powr_minus,
      subst fl_eval[of "- 1"], simp_all add: round_even_def powr_minus,
      subst fl_eval[of 55], simp_all add: round_even_def powr_minus,
      subst fl_eval[of 55], simp_all add: round_even_def powr_minus,
      subst fl_eval[of 53], simp_all add: round_even_def powr_minus,
      subst fl_eval[of 53], simp_all add: round_even_def powr_minus,
      subst fl_eval[of 53], simp_all add: round_even_def powr_minus)

lemma niceTicks_stuck:
  "niceTicks ex_math (Num 10000000000000000) (Num 10000000000000002) (Num 6) = None"
  by (simp add: niceTicks_def Let_def ex_math_def ex_log10_def ex_pow_def sub64_Num mul64_Num add64_Num
        js_div_def fl_numeral fl_stuck loop_stuck)

text \<open>
  C6 (as amended). Let \<open>min < max\<close> be doubles and \<open>targetCount\<close> positive, and let the
  engine's \<open>Math.pow(10, Math.floor(Math.log10(rawStep)))\<close> be a finite positive double
  \<open>p\<close> with \<open>p * 2 ^ 64\<close> below the overflow threshold and with \<open>min\<close> and \<open>max\<close> at most
  \<open>2 ^ 49 * p\<close> in magnitude, where \<open>rawStep\<close> is \<open>(max - min) / targetCount\<close> in double
  arithmetic. Then \<open>niceTicks\<close> returns, its step is one of \<open>1, 2, 5, 10\<close> times \<open>p\<close>
  (rounded), and no candidate has a smaller distance to \<open>rawStep\<close> as the code computes
  it. For \<open>min = 0\<close>, \<open>max = 100\<close>, \<open>targetCount = 6\<close>, on an engine with
  \<open>Math.floor(Math.log10(rawStep)) = 1\<close> and \<open>Math.pow(10, 1) = 10\<close>, the step is 20.
\<close>

theorem niceTicks_step_closest:
  assumes "is_double a" and "is_double b" and "a < b" and "0 < n"
      and "Math_pow M (Num 10)
             (Math_floor (Math_log10 M (div64 (Math_abs (sub64 (Num b) (Num a))) (Num n)))) = Num p"
      and "is_double p" and "0 < p" and "p * 2 ^ 64 < huge"
      and "\<bar>a\<bar> \<le> 2 ^ 49 * p" and "\<bar>b\<bar> \<le> 2 ^ 49 * p"
  shows "(let raw = div64 (Math_abs (sub64 (Num b) (Num a))) (Num n);
              cs = [mul64 (Num 1) (Num p), mul64 (Num 2) (Num p), mul64 (Num 5) (Num p),
                    mul64 (Num 10) (Num p)]
          in \<exists>step ticks.
               niceTicks M (Num a) (Num b) (Num n) = Some (step, ticks)
               \<and> step \<in> set cs
               \<and> (\<forall>c \<in> set cs. \<not> js_less (Math_abs (sub64 c raw)) (Math_abs (sub64 step raw))))
         \<and> (Math_floor (Math_log10 M (fl (100 / 6))) = Num 1 \<and> Math_pow M (Num 10) (Num 1) = Num 10
              \<longrightarrow> map_option fst (niceTicks M (Num 0) (Num 100) (Num 6)) = Some (Num 20))"
proof -
  note r = niceTicks_returns[OF assms]
  from r(1) obtain ticks where
    "niceTicks M (Num a) (Num b) (Num n) =
       Some (closest (div64 (Math_abs (sub64 (Num b) (Num a))) (Num n))
               [mul64 (Num 1) (Num p), mul64 (Num 2) (Num p), mul64 (Num 5) (Num p), mul64 (Num 10) (Num p)]
               ([mul64 (Num 1) (Num p), mul64 (Num 2) (Num p), mul64 (Num 5) (Num p), mul64 (Num 10) (Num p)] ! 0),
             ticks)"
    by blast
  with r(2,3) have "\<exists>step ticks.
               niceTicks M (Num a) (Num b) (Num n) = Some (step, ticks)
               \<and> step \<in> set [mul64 (Num 1) (Num p), mul64 (Num 2) (Num p), mul64 (Num 5) (Num p),
                    mul64 (Num 10) (Num p)]
               \<and> (\<forall>c \<in> set [mul64 (Num 1) (Num p), mul64 (Num 2) (Num p), mul64 (Num 5) (Num p),
                    mul64 (Num 10) (Num p)].
                     \<not> js_less (Math_abs (sub64 c (div64 (Math_abs (sub64 (Num b) (Num a))) (Num n))))
                          (Math_abs (sub64 step (div64 (Math_abs (sub64 (Num b) (Num a))) (Num n)))))"
    by blast
  then show ?thesis
    unfolding Let_def using niceTicks_100_6[of M] by blast
qed

theorem niceTicks_step_closest_witness:
  "is_double 0 \<and> is_double 100 \<and> (0 :: real) < 100 \<and> (0 :: real) < 6
   \<and> Math_pow ex_math (Num 10)
        (Math_floor (Math_log10 ex_math (div64 (Math_abs (sub64 (Num 100) (Num 0))) (Num 6)))) = Num 10
   \<and> is_double 10 \<and> (0 :: real) < 10 \<and> 10 * 2 ^ 64 < huge
   \<and> \<bar>0 :: real\<bar> \<le> 2 ^ 49 * 10 \<and> \<bar>100 :: real\<bar> \<le> 2 ^ 49 * 10
   \<and> Math_floor (Math_log10 ex_math (fl (100 / 6))) = Num 1
   \<and> Math_pow ex_math (Num 10) (Num 1) = Num 10
   \<and> map_option fst (niceTicks ex_math (Num 0) (Num 100) (Num 6)) = Some (Num 20)"
proof -
  have h1: "is_double 0" and h2: "is_double 100" and h3: "(0 :: real) < 100" and h4: "(0 :: real) < 6"
    by (simp_all add: is_double_numeral)
  have h5: "Math_pow ex_math (Num 10)
        (Math_floor (Math_log10 ex_math (div64 (Math_abs (sub64 (Num 100) (Num 0))) (Num 6)))) = Num 10"
    by (simp add: raw_100_6 ex_math_def ex_log10_def ex_pow_def)
  have h6: "is_double 10" and h7: "(0 :: real) < 10" and h8: "10 * 2 ^ 64 < huge"
    by (simp_all add: is_double_numeral huge_def)
  have h9: "\<bar>0 :: real\<bar> \<le> 2 ^ 49 * 10" and h10: "\<bar>100 :: real\<bar> \<le> 2 ^ 49 * 10"
    by simp_all
  have e1: "Math_floor (Math_log10 ex_math (fl (100 / 6))) = Num 1"
    by (simp add: fl_raw_100_6 ex_math_def ex_log10_def)
  have e2: "Math_pow ex_math (Num 10) (Num 1) = Num 10"
    by (simp add: ex_math_def ex_pow_def)
  from niceTicks_step_closest[OF h1 h2 h3 h4 h5 h6 h7 h8 h9 h10] e1 e2
  have "map_option fst (niceTicks ex_math (Num 0) (Num 100) (Num 6)) = Some (Num 20)"
    by blast
  with h1 h2 h3 h4 h5 h6 h7 h8 h9 h10 e1 e2 show ?thesis by blast
qed

text \<open>
  C6 as stated fails: for \<open>min = 1e16\<close>, \<open>max = 1e16 + 2\<close> and \<open>targetCount = 6\<close> the step is
  \<open>0.2\<close>, the loop starts at \<open>1e16\<close>, and \<open>1e16 + 0.2\<close> rounds to \<open>1e16\<close>: the loop never
  ends and \<open>niceTicks\<close> does not return.
\<close>

theorem niceTicks_does_not_return_counterexample:
  "is_double 10000000000000000 \<and> is_double 10000000000000002
   \<and> (10000000000000000 :: real) < 10000000000000002 \<and> (0 :: real) < 6
   \<and> add64 (Num 10000000000000000) (Num (3602879701896397 / 18014398509481984))
       = Num 10000000000000000
   \<and> niceTicks ex_math (Num 10000000000000000) (Num 10000000000000002) (Num 6) = None"
proof -
  have "is_double 10000000000000000"
    by (rule is_doubleI[of _ 5000000000000000 1]) simp_all
  moreover have "is_double 10000000000000002"
    by (rule is_doubleI[of _ 5000000000000001 1]) simp_all
  ultimately show ?thesis
    by (simp add: stuck_step niceTicks_stuck)
qed

section \<open>Properties of the ingestion\<close>

lemma split_on_not_Nil: "split_on c s \<noteq> []"
  by (induction s) (auto split: list.splits)

lemma point_of_Some_iff: "(\<exists>p. point_of P r = Some p) \<longleftrightarrow> isFinite (toDate P r)"
  by (cases "toDate P r") (simp_all add: point_of_def)

lemma map_filter_parse_lines:
  "List.map_filter (point_of P) (parse_lines P headers ls) =
     map (line_point P headers) (filter (accepted P headers) ls)"
proof (induction ls)
  case Nil
  then show ?case by (simp add:)
next
  case (Cons l ls)
  show ?case
  proof (cases "columns_match headers l")
    case False
    then show ?thesis
      using Cons.IH by (simp add: columns_match_def accepted_def Let_def)
  next
    case True
    show ?thesis
    proof (cases "point_of P (row_of P headers (split_on CHR '','' l))")
      case None
      then have "\<not> timestamp_finite P headers l"
        using point_of_Some_iff[of P "row_of P headers (split_on CHR '','' l)"]
        by (simp add: timestamp_finite_def)
      with True None show ?thesis
        using Cons.IH by (simp add: columns_match_def accepted_def Let_def)
    next
      case (Some p)
      then have "timestamp_finite P headers l"
        using point_of_Some_iff[of P "row_of P headers (split_on CHR '','' l)"]
        by (auto simp: timestamp_finite_def)
      with True Some show ?thesis
        using Cons.IH
        by (simp add: columns_match_def accepted_def Let_def line_point_def)
    qed
  qed
qed

lemma parseCSV_lines: "parseCSV P text = parse_lines P (header_of text) (data_lines text)"
proof -
  let ?lines = "split_on CHR 0x0A (trim (filter (\<lambda>c. c \<noteq> CHR 0x0D) text))"
  obtain l ls where l: "?lines = l # ls"
    using split_on_not_Nil[of "CHR 0x0A" "trim (filter (\<lambda>c. c \<noteq> CHR 0x0D) text)"]
    by (cases ?lines) auto
  show ?thesis
  proof (cases ls)
    case Nil
    with l show ?thesis by (simp add: parseCSV_def data_lines_def header_of_def)
  next
    case (Cons a as)
    with l show ?thesis by (simp add: parseCSV_def data_lines_def header_of_def Let_def)
  qed
qed

lemma normalize_lines:
  "normalize P (parseCSV P text) =
     sort_key pt_x (map (line_point P (header_of text))
                      (filter (accepted P (header_of text)) (data_lines text)))"
  by (simp add: normalize_def parseCSV_lines map_filter_parse_lines)

lemma main_Inr:
  assumes "main P s res = Inr s'"
  shows "data s' = normalize P (parseCSV P (res_text res))"
  using assms main_install_Inr(2)[of s "normalize P (parseCSV P (res_text res))" s']
  by (simp add: main_def split: if_splits)

text \<open>
  C9 (as amended). After a successful load, the dataset consists of exactly one point for
  every data line whose column count matches the header and whose composed timestamp is
  a finite instant, whether or not its other fields parse (a field that does not parse
  becomes a non-finite channel value); lines with a mismatching column count contribute
  nothing; and the points are sorted ascending by timestamp, lines with equal timestamps
  in file order.
\<close>

theorem ingestion_accepts_matching_lines:
  assumes "main P s res = Inr s'"
  shows "data s' = sort_key pt_x (map (line_point P (header_of (res_text res)))
                      (filter (accepted P (header_of (res_text res))) (data_lines (res_text res))))
   \<and> sorted (map pt_x (data s'))
   \<and> length (data s')
       = length (filter (accepted P (header_of (res_text res))) (data_lines (res_text res)))"
  unfolding main_Inr[OF assms] normalize_lines by simp

theorem ingestion_accepts_matching_lines_witness:
  "main ex_platform init_state \<lparr> res_ok = True, res_text = ex_csv \<rparr>
     = Inr (init_state\<lparr> data := [\<lparr>pt_x = 1770552030000, temp_OUT = NaN, moist_lv = Num 5, light = Num 7\<rparr>],
                        xDomainAll := (1770552030000, 1770552030000),
                        view_x0 := 1770552030000, view_x1 := 1770552030000 \<rparr>)
   \<and> filter (accepted ex_platform (header_of ex_csv)) (data_lines ex_csv) = [''2026,2,8,12,0,30,abc,5,7'']
   \<and> line_point ex_platform (header_of ex_csv) ''2026,2,8,12,0,30,abc,5,7''
       = \<lparr>pt_x = 1770552030000, temp_OUT = NaN, moist_lv = Num 5, light = Num 7\<rparr>"
proof -
  have m: "main ex_platform init_state \<lparr> res_ok = True, res_text = ex_csv \<rparr>
     = Inr (init_state\<lparr> data := [\<lparr>pt_x = 1770552030000, temp_OUT = NaN, moist_lv = Num 5, light = Num 7\<rparr>],
                        xDomainAll := (1770552030000, 1770552030000),
                        view_x0 := 1770552030000, view_x1 := 1770552030000 \<rparr>)"
    by code_simp
  have f: "filter (accepted ex_platform (header_of ex_csv)) (data_lines ex_csv) = [''2026,2,8,12,0,30,abc,5,7'']"
    by code_simp
  from ingestion_accepts_matching_lines[OF m] f m show ?thesis
    by simp
qed

text \<open>
  C9 as stated fails: the line \<open>2026,2,8,12,0,30,abc,5,7\<close> has a temperature that does
  not parse, and it is accepted into the dataset, with temperature \<open>NaN\<close>.
\<close>

theorem ingestion_keeps_unparsed_field_counterexample:
  "normalize ex_platform (parseCSV ex_platform ex_csv)
     = [\<lparr>pt_x = 1770552030000, temp_OUT = NaN, moist_lv = Num 5, light = Num 7\<rparr>]
   \<and> data_lines ex_csv = [''2026,2,8,12,0,30,abc,5,7'', ''2026,2,8,12'']
   \<and> accepted ex_platform (header_of ex_csv) ''2026,2,8,12,0,30,abc,5,7''
   \<and> \<not> all_fields_parse ex_platform ''2026,2,8,12,0,30,abc,5,7''"
  by code_simp

end
